theory Spec2Isabelle
  imports Complex_Main "HOL-Library.Word" "HOL-Library.Monad_Syntax"
begin

section \<open>Data model\<close>

text \<open>
  The engine of \<^verbatim>\<open>incstats.h\<close> works on C \<^verbatim>\<open>double\<close> values held in caller-owned
  arrays, with \<^verbatim>\<open>uint64_t\<close> orders and loop counters.

  A \<^verbatim>\<open>double\<close> is modelled over exact real arithmetic: \<open>Finite r\<close> is the real number
  \<open>r\<close>, and \<open>NonFinite\<close> stands for every value of the C type that is not a real number
  (NaN and the two infinities). Rounding and overflow are not modelled. The operations
  that leave the reals in C leave them here: a division by zero and the square root of a
  negative number give \<open>NonFinite\<close>, and \<open>NonFinite\<close> is absorbing for the arithmetic.
  The samples of a stream are real numbers; \<open>NonFinite\<close> arises only as the result of
  an operation.
\<close>

datatype double = Finite real | NonFinite

type_synonym u64 = "64 word"

instantiation double :: "{plus, minus, uminus, times, inverse}"
begin

fun plus_double :: "double \<Rightarrow> double \<Rightarrow> double" where
  "plus_double (Finite a) (Finite b) = Finite (a + b)"
| "plus_double _ _ = NonFinite"

fun minus_double :: "double \<Rightarrow> double \<Rightarrow> double" where
  "minus_double (Finite a) (Finite b) = Finite (a - b)"
| "minus_double _ _ = NonFinite"

fun uminus_double :: "double \<Rightarrow> double" where
  "uminus_double (Finite a) = Finite (- a)"
| "uminus_double NonFinite = NonFinite"

fun times_double :: "double \<Rightarrow> double \<Rightarrow> double" where
  "times_double (Finite a) (Finite b) = Finite (a * b)"
| "times_double _ _ = NonFinite"

fun divide_double :: "double \<Rightarrow> double \<Rightarrow> double" where
  "divide_double (Finite a) (Finite b) = (if b = 0 then NonFinite else Finite (a / b))"
| "divide_double _ _ = NonFinite"

fun inverse_double :: "double \<Rightarrow> double" where
  "inverse_double (Finite a) = (if a = 0 then NonFinite else Finite (inverse a))"
| "inverse_double NonFinite = NonFinite"

instance ..

end

text \<open>\<^verbatim>\<open>sqrt\<close> of \<^verbatim>\<open>math.h\<close>: not a number below zero.\<close>

fun c_sqrt :: "double \<Rightarrow> double" where
  "c_sqrt (Finite a) = (if a < 0 then NonFinite else Finite (sqrt a))"
| "c_sqrt NonFinite = NonFinite"

text \<open>The implicit conversion of a \<^verbatim>\<open>uint64_t\<close> to \<^verbatim>\<open>double\<close>.\<close>

definition of_u64 :: "u64 \<Rightarrow> double" where
  "of_u64 n = Finite (real (unat n))"

text \<open>
  An array is a list. A read or a write outside the array is undefined behaviour in C;
  here it is the result \<open>None\<close>, and a function that performs one returns \<open>None\<close>.
\<close>

definition rd :: "double list \<Rightarrow> nat \<Rightarrow> double option" where
  "rd a i = (if i < length a then Some (a ! i) else None)"

definition wr :: "double list \<Rightarrow> nat \<Rightarrow> double \<Rightarrow> double list option" where
  "wr a i v = (if i < length a then Some (a[i := v]) else None)"

section \<open>Arithmetic primitives\<close>

text \<open>
  \<^verbatim>\<open>incstats_pow\<close>: \<^verbatim>\<open>result = x\<close>, the early return \<^verbatim>\<open>1.0\<close> for \<^verbatim>\<open>y == 0\<close>, then the loop
  \<^verbatim>\<open>for(i = 0; i < y - 1; i++) result *= x\<close>.
\<close>

function pow_loop :: "double \<Rightarrow> u64 \<Rightarrow> u64 \<Rightarrow> double \<Rightarrow> double" where
  "pow_loop x y i result =
     (if i < y - 1 then pow_loop x y (i + 1) (result * x) else result)"
  by pat_completeness auto
termination
proof (relation "measure (\<lambda>(x, y, i, result). unat (y - 1) - unat i)")
  show "wf (measure (\<lambda>(x, y, i, result). unat (y - 1) - unat i))"
    by simp
next
  fix x :: double and y i :: u64 and result :: double
  assume "i < y - 1"
  then have "unat (i + 1) = Suc (unat i)"
    by unat_arith
  moreover from \<open>i < y - 1\<close> have "unat i < unat (y - 1)"
    by (simp add: word_less_nat_alt)
  ultimately show "((x, y, i + 1, result * x), (x, y, i, result))
      \<in> measure (\<lambda>(x, y, i, result). unat (y - 1) - unat i)"
    by simp
qed

declare pow_loop.simps [simp del]

definition incstats_pow :: "double \<Rightarrow> u64 \<Rightarrow> double" where
  "incstats_pow x y = (if y = 0 then Finite 1 else pow_loop x y 0 x)"

text \<open>
  \<^verbatim>\<open>n_choose_k\<close>, in 64-bit arithmetic that wraps. The loop
  \<^verbatim>\<open>for(j = 1; j <= k; j++, n--)\<close> computes \<^verbatim>\<open>n % j\<close>; should \<open>j\<close> wrap to zero (which
  needs \<open>k = 2\<^sup>6\<^sup>4 - 1\<close>) that is an integer division by zero, undefined in C: \<open>None\<close>.
\<close>

function nck_loop :: "u64 \<Rightarrow> u64 \<Rightarrow> u64 \<Rightarrow> u64 \<Rightarrow> u64 option" where
  "nck_loop j k n result =
     (if j \<le> k then
        (if j = 0 then None
         else if n mod j = 0 then nck_loop (j + 1) k (n - 1) (result * (n div j))
         else if result mod j = 0 then nck_loop (j + 1) k (n - 1) (result div j * n)
         else nck_loop (j + 1) k (n - 1) (result * n div j))
      else Some result)"
  by pat_completeness auto
termination
proof (relation "measure (\<lambda>(j, k, n, result). if j = 0 then 0 else 2 ^ 64 - unat j)")
  show "wf (measure (\<lambda>(j :: u64, k :: u64, n :: u64, result :: u64).
      if j = 0 then 0 else 2 ^ 64 - unat j))"
    by simp
next
  have step: "(if j + 1 = 0 then 0 else 2 ^ 64 - unat (j + 1)) < (2 ^ 64 - unat j :: nat)"
    if "j \<noteq> 0" for j :: u64
  proof (cases "j + 1 = 0")
    case True
    have "unat j < 2 ^ 64"
      using unsigned_less [of j] by simp
    with True show ?thesis by simp
  next
    case False
    then have "unat (j + 1) = Suc (unat j)"
      by (simp add: unatSuc add.commute)
    moreover have "unat (j + 1) < 2 ^ 64"
      using unsigned_less [of "j + 1"] by simp
    ultimately show ?thesis using False by simp
  qed
  fix j k n result :: u64
  assume "j \<noteq> 0"
  then show "((j + 1, k, n - 1, result * (n div j)), (j, k, n, result))
      \<in> measure (\<lambda>(j, k, n, result). if j = 0 then 0 else 2 ^ 64 - unat j)"
    and "((j + 1, k, n - 1, result div j * n), (j, k, n, result))
      \<in> measure (\<lambda>(j, k, n, result). if j = 0 then 0 else 2 ^ 64 - unat j)"
    and "((j + 1, k, n - 1, result * n div j), (j, k, n, result))
      \<in> measure (\<lambda>(j, k, n, result). if j = 0 then 0 else 2 ^ 64 - unat j)"
    using step [of j] by simp_all
qed

declare nck_loop.simps [simp del]

definition n_choose_k :: "u64 \<Rightarrow> u64 \<Rightarrow> u64 option" where
  "n_choose_k n k = (let k = (if k > n - k then n - k else k) in nck_loop 1 k n 1)"

section \<open>Moment accumulator engine: updates\<close>

text \<open>
  An update mutates the caller's buffer; the model takes the buffer and returns the new
  one. Each C statement is translated in order: the reads of the slots it mentions, then
  its write.
\<close>

definition incstats_mean :: "double \<Rightarrow> double \<Rightarrow> double list \<Rightarrow> double list option" where
  "incstats_mean x w buffer = do {
     b0 \<leftarrow> rd buffer 0;
     buffer \<leftarrow> wr buffer 0 (b0 + w);
     b0 \<leftarrow> rd buffer 0;
     b1 \<leftarrow> rd buffer 1;
     wr buffer 1 (b1 + w / b0 * (x - b1))
   }"

definition incstats_variance :: "double \<Rightarrow> double \<Rightarrow> double list \<Rightarrow> double list option" where
  "incstats_variance x w buffer = do {
     b0 \<leftarrow> rd buffer 0;
     buffer \<leftarrow> wr buffer 0 (b0 + w);
     b0 \<leftarrow> rd buffer 0;
     b1 \<leftarrow> rd buffer 1;
     let new_mean = b1 + w / b0 * (x - b1);
     b2 \<leftarrow> rd buffer 2;
     b1 \<leftarrow> rd buffer 1;
     buffer \<leftarrow> wr buffer 2 (b2 + w * (x - b1) * (x - new_mean));
     wr buffer 1 new_mean
   }"

definition incstats_skewness :: "double \<Rightarrow> double \<Rightarrow> double list \<Rightarrow> double list option" where
  "incstats_skewness x w buffer = do {
     b0 \<leftarrow> rd buffer 0;
     let new_sum_w = b0 + w;
     b3 \<leftarrow> rd buffer 3;
     b2 \<leftarrow> rd buffer 2;
     b1 \<leftarrow> rd buffer 1;
     b0 \<leftarrow> rd buffer 0;
     buffer \<leftarrow> wr buffer 3
       (b3 + Finite 3 * b2 * (- w * (x - b1) / new_sum_w)
          + b0 * incstats_pow (- w * (x - b1) / new_sum_w) 3
          + w * incstats_pow (b0 * (x - b1) / new_sum_w) 3);
     b2 \<leftarrow> rd buffer 2;
     b1 \<leftarrow> rd buffer 1;
     b0 \<leftarrow> rd buffer 0;
     buffer \<leftarrow> wr buffer 2
       (b2 + b0 * incstats_pow (- w * (x - b1) / new_sum_w) 2
          + w * incstats_pow (b0 * (x - b1) / new_sum_w) 2);
     b1 \<leftarrow> rd buffer 1;
     buffer \<leftarrow> wr buffer 1 (b1 + w / new_sum_w * (x - b1));
     wr buffer 0 new_sum_w
   }"

definition incstats_kurtosis :: "double \<Rightarrow> double \<Rightarrow> double list \<Rightarrow> double list option" where
  "incstats_kurtosis x w buffer = do {
     b0 \<leftarrow> rd buffer 0;
     let new_sum_w = b0 + w;
     b4 \<leftarrow> rd buffer 4;
     b3 \<leftarrow> rd buffer 3;
     b2 \<leftarrow> rd buffer 2;
     b1 \<leftarrow> rd buffer 1;
     b0 \<leftarrow> rd buffer 0;
     buffer \<leftarrow> wr buffer 4
       (b4 + Finite 4 * b3 * (- w * (x - b1) / new_sum_w)
          + Finite 6 * b2 * incstats_pow (- w * (x - b1) / new_sum_w) 2
          + b0 * incstats_pow (- w * (x - b1) / new_sum_w) 4
          + w * incstats_pow (b0 * (x - b1) / new_sum_w) 4);
     b3 \<leftarrow> rd buffer 3;
     b2 \<leftarrow> rd buffer 2;
     b1 \<leftarrow> rd buffer 1;
     b0 \<leftarrow> rd buffer 0;
     buffer \<leftarrow> wr buffer 3
       (b3 + Finite 3 * b2 * (- w * (x - b1) / new_sum_w)
          + b0 * incstats_pow (- w * (x - b1) / new_sum_w) 3
          + w * incstats_pow (b0 * (x - b1) / new_sum_w) 3);
     b2 \<leftarrow> rd buffer 2;
     b1 \<leftarrow> rd buffer 1;
     b0 \<leftarrow> rd buffer 0;
     buffer \<leftarrow> wr buffer 2
       (b2 + b0 * incstats_pow (- w * (x - b1) / new_sum_w) 2
          + w * incstats_pow (b0 * (x - b1) / new_sum_w) 2);
     b1 \<leftarrow> rd buffer 1;
     buffer \<leftarrow> wr buffer 1 (b1 + w / new_sum_w * (x - b1));
     wr buffer 0 new_sum_w
   }"

text \<open>
  \<^verbatim>\<open>incstats_central_moment\<close>: the inner loop \<^verbatim>\<open>for(k = i - 2; k > 0; k--)\<close> that builds
  \<^verbatim>\<open>tmp\<close>, the outer loop \<^verbatim>\<open>for(i = p; i > 1; i--)\<close> that overwrites \<^verbatim>\<open>buffer[i]\<close>, then
  the mean and the weight.
\<close>

function cm_inner ::
  "double \<Rightarrow> double \<Rightarrow> double \<Rightarrow> double list \<Rightarrow> u64 \<Rightarrow> u64 \<Rightarrow> double \<Rightarrow> double option" where
  "cm_inner x w new_sum_w buffer i k tmp =
     (if k > 0 then do {
        c \<leftarrow> n_choose_k i k;
        bik \<leftarrow> rd buffer (unat (i - k));
        b1 \<leftarrow> rd buffer 1;
        cm_inner x w new_sum_w buffer i (k - 1)
          (tmp + of_u64 c * bik * incstats_pow (- w * (x - b1) / new_sum_w) k)
      } else Some tmp)"
  by pat_completeness auto
termination
proof (relation "measure (\<lambda>(x, w, new_sum_w, buffer, i, k, tmp). unat k)")
  show "wf (measure (\<lambda>(x :: double, w :: double, new_sum_w :: double,
      buffer :: double list, i :: u64, k :: u64, tmp :: double). unat k))"
    by simp
next
  fix x w new_sum_w :: double and buffer :: "double list" and i k :: u64
    and tmp :: double and c :: u64 and bik b1 :: double
  assume "0 < k"
  then have "unat (k - 1) < unat k"
    by unat_arith
  then show "((x, w, new_sum_w, buffer, i, k - 1,
        tmp + of_u64 c * bik * incstats_pow (- w * (x - b1) / new_sum_w) k),
       (x, w, new_sum_w, buffer, i, k, tmp))
      \<in> measure (\<lambda>(x, w, new_sum_w, buffer, i, k, tmp). unat k)"
    by simp
qed

declare cm_inner.simps [simp del]

function cm_outer ::
  "double \<Rightarrow> double \<Rightarrow> double \<Rightarrow> double list \<Rightarrow> u64 \<Rightarrow> double list option" where
  "cm_outer x w new_sum_w buffer i =
     (if i > 1 then do {
        tmp \<leftarrow> cm_inner x w new_sum_w buffer i (i - 2) (Finite 0);
        bi \<leftarrow> rd buffer (unat i);
        b0 \<leftarrow> rd buffer 0;
        b1 \<leftarrow> rd buffer 1;
        buffer \<leftarrow> wr buffer (unat i)
          (bi + tmp + b0 * incstats_pow (- w * (x - b1) / new_sum_w) i
              + w * incstats_pow (b0 * (x - b1) / new_sum_w) i);
        cm_outer x w new_sum_w buffer (i - 1)
      } else Some buffer)"
  by pat_completeness auto
termination
proof (relation "measure (\<lambda>(x, w, new_sum_w, buffer, i). unat i)")
  show "wf (measure (\<lambda>(x :: double, w :: double, new_sum_w :: double,
      buffer :: double list, i :: u64). unat i))"
    by simp
next
  fix x w new_sum_w :: double and buffer buffer' :: "double list" and i :: u64
  assume "1 < i"
  then have "unat (i - 1) < unat i"
    by unat_arith
  then show "((x, w, new_sum_w, buffer', i - 1), (x, w, new_sum_w, buffer, i))
      \<in> measure (\<lambda>(x, w, new_sum_w, buffer, i). unat i)"
    by simp
qed

declare cm_outer.simps [simp del]

definition incstats_central_moment ::
  "double \<Rightarrow> double \<Rightarrow> double list \<Rightarrow> u64 \<Rightarrow> double list option" where
  "incstats_central_moment x w buffer p = do {
     b0 \<leftarrow> rd buffer 0;
     let new_sum_w = b0 + w;
     buffer \<leftarrow> cm_outer x w new_sum_w buffer p;
     b1 \<leftarrow> rd buffer 1;
     buffer \<leftarrow> wr buffer 1 (b1 + w / new_sum_w * (x - b1));
     wr buffer 0 new_sum_w
   }"

section \<open>Moment accumulator engine: finalize\<close>

text \<open>
  A finalize function receives two pointers, the results and the buffer. The model takes
  both arrays and returns both, so that what it does to either is a property to prove.
  The two arrays are distinct objects, as the data model requires.
\<close>

definition incstats_mean_finalize :: "double \<Rightarrow> double list \<Rightarrow> (double \<times> double list) option" where
  "incstats_mean_finalize mean buffer = do {
     b1 \<leftarrow> rd buffer 1;
     let mean = b1;
     Some (mean, buffer)
   }"

definition incstats_variance_finalize ::
  "double list \<Rightarrow> double list \<Rightarrow> (double list \<times> double list) option" where
  "incstats_variance_finalize results buffer = do {
     b1 \<leftarrow> rd buffer 1;
     results \<leftarrow> wr results 0 b1;
     b2 \<leftarrow> rd buffer 2;
     b0 \<leftarrow> rd buffer 0;
     results \<leftarrow> wr results 1 (b2 / b0);
     Some (results, buffer)
   }"

definition incstats_skewness_finalize ::
  "double list \<Rightarrow> double list \<Rightarrow> (double list \<times> double list) option" where
  "incstats_skewness_finalize results buffer = do {
     b1 \<leftarrow> rd buffer 1;
     results \<leftarrow> wr results 0 b1;
     b2 \<leftarrow> rd buffer 2;
     b0 \<leftarrow> rd buffer 0;
     results \<leftarrow> wr results 1 (b2 / b0);
     b3 \<leftarrow> rd buffer 3;
     b2 \<leftarrow> rd buffer 2;
     b0 \<leftarrow> rd buffer 0;
     results \<leftarrow> wr results 2 ((b3 / b0) / ((b2 / b0) * c_sqrt (b2 / b0)));
     Some (results, buffer)
   }"

definition incstats_kurtosis_finalize ::
  "double list \<Rightarrow> double list \<Rightarrow> (double list \<times> double list) option" where
  "incstats_kurtosis_finalize results buffer = do {
     b1 \<leftarrow> rd buffer 1;
     results \<leftarrow> wr results 0 b1;
     b2 \<leftarrow> rd buffer 2;
     b0 \<leftarrow> rd buffer 0;
     results \<leftarrow> wr results 1 (b2 / b0);
     b3 \<leftarrow> rd buffer 3;
     b2 \<leftarrow> rd buffer 2;
     b0 \<leftarrow> rd buffer 0;
     results \<leftarrow> wr results 2 ((b3 / b0) / ((b2 / b0) * c_sqrt (b2 / b0)));
     b4 \<leftarrow> rd buffer 4;
     b2 \<leftarrow> rd buffer 2;
     b0 \<leftarrow> rd buffer 0;
     results \<leftarrow> wr results 3 ((b4 / b0) / incstats_pow (b2 / b0) 2);
     Some (results, buffer)
   }"

text \<open>
  \<^verbatim>\<open>incstats_central_moment_finalize\<close>: the loop \<^verbatim>\<open>for(i = 2; i < p + 1; i++)\<close> of the raw
  moments, the loop \<^verbatim>\<open>for(i = 0; i < p + 1; i++)\<close> of the standardization, which reads
  \<^verbatim>\<open>results[i]\<close> back, and the mean at \<^verbatim>\<open>results[p + 1]\<close>. The bound \<^verbatim>\<open>p + 1\<close> and the
  index \<^verbatim>\<open>p + 1\<close> are computed in \<^verbatim>\<open>uint64_t\<close>.
\<close>

function cmf_raw :: "double list \<Rightarrow> double list \<Rightarrow> u64 \<Rightarrow> u64 \<Rightarrow> double list option" where
  "cmf_raw results buffer p i =
     (if i < p + 1 then do {
        bi \<leftarrow> rd buffer (unat i);
        b0 \<leftarrow> rd buffer 0;
        results \<leftarrow> wr results (unat i) (bi / b0);
        cmf_raw results buffer p (i + 1)
      } else Some results)"
  by pat_completeness auto
termination
proof (relation "measure (\<lambda>(results, buffer, p, i). unat (p + 1) - unat i)")
  show "wf (measure (\<lambda>(results :: double list, buffer :: double list, p :: u64, i :: u64).
      unat (p + 1) - unat i))"
    by simp
next
  fix results results' buffer :: "double list" and p i :: u64
  assume "i < p + 1"
  then have "unat (i + 1) = Suc (unat i)" and "unat i < unat (p + 1)"
    by unat_arith+
  then show "((results', buffer, p, i + 1), (results, buffer, p, i))
      \<in> measure (\<lambda>(results, buffer, p, i). unat (p + 1) - unat i)"
    by simp
qed

declare cmf_raw.simps [simp del]

function cmf_std :: "double list \<Rightarrow> double \<Rightarrow> u64 \<Rightarrow> u64 \<Rightarrow> double list option" where
  "cmf_std results variance p i =
     (if i < p + 1 then do {
        ri \<leftarrow> rd results (unat i);
        results \<leftarrow> wr results (unat i) (ri / incstats_pow (c_sqrt variance) i);
        cmf_std results variance p (i + 1)
      } else Some results)"
  by pat_completeness auto
termination
proof (relation "measure (\<lambda>(results, variance, p, i). unat (p + 1) - unat i)")
  show "wf (measure (\<lambda>(results :: double list, variance :: double, p :: u64, i :: u64).
      unat (p + 1) - unat i))"
    by simp
next
  fix results results' :: "double list" and variance :: double and p i :: u64
  assume "i < p + 1"
  then have "unat (i + 1) = Suc (unat i)" and "unat i < unat (p + 1)"
    by unat_arith+
  then show "((results', variance, p, i + 1), (results, variance, p, i))
      \<in> measure (\<lambda>(results, variance, p, i). unat (p + 1) - unat i)"
    by simp
qed

declare cmf_std.simps [simp del]

definition incstats_central_moment_finalize ::
  "double list \<Rightarrow> double list \<Rightarrow> u64 \<Rightarrow> bool \<Rightarrow> (double list \<times> double list) option" where
  "incstats_central_moment_finalize results buffer p standardize = do {
     results \<leftarrow> wr results 0 (Finite 1);
     results \<leftarrow> wr results 1 (Finite 0);
     results \<leftarrow> cmf_raw results buffer p 2;
     results \<leftarrow> (if standardize then do {
                   variance \<leftarrow> rd results 2;
                   cmf_std results variance p 0
                 } else Some results);
     b1 \<leftarrow> rd buffer 1;
     results \<leftarrow> wr results (unat (p + 1)) b1;
     Some (results, buffer)
   }"

section \<open>Auxiliary definitions for the statements\<close>

text \<open>
  The right-hand side of the assignment to \<^verbatim>\<open>buffer[4]\<close> in \<^verbatim>\<open>incstats_kurtosis\<close>, with the
  value taken for the order-3 term \<^verbatim>\<open>buffer[3]\<close> as a parameter \<open>m3\<close>; every other slot
  is read from \<open>buffer\<close>.
\<close>

definition kurtosis_order4 :: "double \<Rightarrow> double \<Rightarrow> double list \<Rightarrow> double \<Rightarrow> double" where
  "kurtosis_order4 x w buffer m3 =
     buffer ! 4 + Finite 4 * m3 * (- w * (x - buffer ! 1) / (buffer ! 0 + w))
       + Finite 6 * (buffer ! 2) * incstats_pow (- w * (x - buffer ! 1) / (buffer ! 0 + w)) 2
       + buffer ! 0 * incstats_pow (- w * (x - buffer ! 1) / (buffer ! 0 + w)) 4
       + w * incstats_pow (buffer ! 0 * (x - buffer ! 1) / (buffer ! 0 + w)) 4"

text \<open>
  The snapshot formulation of the generalized update, after the specification: all new
  values are computed from one pre-update snapshot \<open>old\<close> of the buffer, and are committed
  at the end, the orders from \<open>p\<close> down to 2 first, the mean and the weight last.
  \<open>snapshot_moment\<close> is the new value of order \<open>i\<close>: the old value, the binomial-weighted
  cross terms, and the two pure terms. The cross terms are summed by the loop of the source,
  \<open>cm_inner\<close>, which only reads, here from the snapshot.
\<close>

definition snapshot_moment :: "double \<Rightarrow> double \<Rightarrow> double list \<Rightarrow> u64 \<Rightarrow> double option" where
  "snapshot_moment x w old i = do {
     old_w \<leftarrow> rd old 0;
     old_mean \<leftarrow> rd old 1;
     let new_total_weight = old_w + w;
     cross \<leftarrow> cm_inner x w new_total_weight old i (i - 2) (Finite 0);
     old_i \<leftarrow> rd old (unat i);
     Some (old_i + cross
       + old_w * incstats_pow (- w * (x - old_mean) / new_total_weight) i
       + w * incstats_pow (old_w * (x - old_mean) / new_total_weight) i)
   }"

function snapshot_moments ::
  "double \<Rightarrow> double \<Rightarrow> double list \<Rightarrow> u64 \<Rightarrow> (u64 \<times> double) list option" where
  "snapshot_moments x w old i =
     (if i > 1 then do {
        v \<leftarrow> snapshot_moment x w old i;
        vs \<leftarrow> snapshot_moments x w old (i - 1);
        Some ((i, v) # vs)
      } else Some [])"
  by pat_completeness auto
termination
proof (relation "measure (\<lambda>(x, w, old, i). unat i)")
  show "wf (measure (\<lambda>(x :: double, w :: double, old :: double list, i :: u64). unat i))"
    by simp
next
  fix x w :: double and old :: "double list" and i :: u64
  assume "1 < i"
  then have "unat (i - 1) < unat i"
    by unat_arith
  then show "((x, w, old, i - 1), (x, w, old, i)) \<in> measure (\<lambda>(x, w, old, i). unat i)"
    by simp
qed

declare snapshot_moments.simps [simp del]

fun commit :: "double list \<Rightarrow> (u64 \<times> double) list \<Rightarrow> double list option" where
  "commit buffer [] = Some buffer"
| "commit buffer ((i, v) # vs) = do {
     buffer \<leftarrow> wr buffer (unat i) v;
     commit buffer vs
   }"

definition central_moment_snapshot ::
  "double \<Rightarrow> double \<Rightarrow> double list \<Rightarrow> u64 \<Rightarrow> double list option" where
  "central_moment_snapshot x w buffer p = do {
     let old = buffer;
     moments \<leftarrow> snapshot_moments x w old p;
     old_w \<leftarrow> rd old 0;
     old_mean \<leftarrow> rd old 1;
     let new_total_weight = old_w + w;
     let new_mean = old_mean + w / new_total_weight * (x - old_mean);
     buffer \<leftarrow> commit buffer moments;
     buffer \<leftarrow> wr buffer 1 new_mean;
     wr buffer 0 new_total_weight
   }"

text \<open>
  The caller's loop: the samples \<open>(x, w)\<close> of a finite stream are fed one after the other
  to an update function, on the same buffer. The samples are real numbers.
\<close>

type_synonym sample = "real \<times> real"

fun run ::
  "(double \<Rightarrow> double \<Rightarrow> double list \<Rightarrow> double list option) \<Rightarrow> double list \<Rightarrow> sample list
    \<Rightarrow> double list option" where
  "run update buffer [] = Some buffer"
| "run update buffer ((x, w) # rest) = do {
     buffer \<leftarrow> update (Finite x) (Finite w) buffer;
     run update buffer rest
   }"

text \<open>The zero-initialized buffer of a given length.\<close>

definition zeros :: "nat \<Rightarrow> double list" where
  "zeros n = replicate n (Finite 0)"

text \<open>
  The reference statistics of a stream, computed naively: the total weight, the weighted
  sum, the weighted mean and the population weighted variance.
\<close>

definition total_weight :: "sample list \<Rightarrow> real" where
  "total_weight stream = (\<Sum>(x, w) \<leftarrow> stream. w)"

definition weighted_sum :: "sample list \<Rightarrow> real" where
  "weighted_sum stream = (\<Sum>(x, w) \<leftarrow> stream. w * x)"

definition weighted_mean :: "sample list \<Rightarrow> real" where
  "weighted_mean stream = weighted_sum stream / total_weight stream"

definition population_variance :: "sample list \<Rightarrow> real" where
  "population_variance stream =
     (\<Sum>(x, w) \<leftarrow> stream. w * (x - weighted_mean stream)\<^sup>2) / total_weight stream"

text \<open>The weighted sum of squares, for the invariant of the variance update.\<close>

definition weighted_squares :: "sample list \<Rightarrow> real" where
  "weighted_squares stream = (\<Sum>(x, w) \<leftarrow> stream. w * x\<^sup>2)"

section \<open>Basic facts\<close>

lemmas word_cmp = word_le_nat_alt word_less_nat_alt

lemma rd_in [simp]: "i < length a \<Longrightarrow> rd a i = Some (a ! i)"
  by (simp add: rd_def)

lemma rd_out [simp]: "\<not> i < length a \<Longrightarrow> rd a i = None"
  by (simp add: rd_def)

lemma wr_in [simp]: "i < length a \<Longrightarrow> wr a i v = Some (a[i := v])"
  by (simp add: wr_def)

lemma wr_out [simp]: "\<not> i < length a \<Longrightarrow> wr a i v = None"
  by (simp add: wr_def)

lemma cm_outer_low: "p = 0 \<or> p = 1 \<Longrightarrow> cm_outer x w s buffer p = Some buffer"
  by (subst cm_outer.simps) (auto simp: word_cmp)

subsection \<open>The integer power\<close>

lemma unat_minus_one_word: "y \<noteq> 0 \<Longrightarrow> unat (y - 1) = unat y - 1" for y :: u64
  by (simp add: unat_minus_one)

lemma pow_loop_Finite:
  "unat i \<le> unat (y - 1) \<Longrightarrow>
   pow_loop (Finite a) y i (Finite r) = Finite (r * a ^ (unat (y - 1) - unat i))"
proof (induction "Finite a" y i "Finite r" arbitrary: r rule: pow_loop.induct)
  case (1 y i)
  show ?case
  proof (cases "i < y - 1")
    case True
    then have s: "unat (i + 1) = Suc (unat i)" and l: "unat i < unat (y - 1)"
      by unat_arith+
    then have e: "unat (y - 1) - unat i = Suc (unat (y - 1) - unat (i + 1))"
      by simp
    from True s l have "pow_loop (Finite a) y i (Finite r)
        = Finite (r * a * a ^ (unat (y - 1) - unat (i + 1)))"
      using "1.hyps" [of "r * a"] by (subst pow_loop.simps) simp
    then show ?thesis by (simp add: e)
  next
    case False
    with "1.prems" have "unat (y - 1) - unat i = 0"
      by (simp add: word_less_nat_alt)
    with False show ?thesis
      by (subst pow_loop.simps) simp
  qed
qed

lemma incstats_pow_Finite [simp]: "incstats_pow (Finite a) y = Finite (a ^ unat y)"
proof (cases "y = 0")
  case True
  then show ?thesis by (simp add: incstats_pow_def)
next
  case False
  then have "unat (y - 1) = unat y - 1" and "0 < unat y"
    by (simp_all add: unat_minus_one unat_gt_0)
  then have "a * a ^ unat (y - 1) = a ^ unat y"
    by (metis Suc_pred' power_Suc)
  with False show ?thesis
    using pow_loop_Finite [of 0 y a a] by (simp add: incstats_pow_def)
qed

lemma pow_loop_NonFinite: "pow_loop x y i NonFinite = NonFinite"
  by (induction x y i NonFinite rule: pow_loop.induct) (subst pow_loop.simps, simp)

lemma incstats_pow_NonFinite [simp]: "y \<noteq> 0 \<Longrightarrow> incstats_pow NonFinite y = NonFinite"
  by (simp add: incstats_pow_def pow_loop_NonFinite)

subsection \<open>The binomial coefficient returns\<close>

lemma word_succ_nonzero: "j \<le> k \<Longrightarrow> k \<noteq> - 1 \<Longrightarrow> j + 1 \<noteq> 0" for j k :: u64
  using max_word_wrap order_antisym_conv by blast

lemma word_less_not_max: "a < k \<Longrightarrow> a \<noteq> - 1" for a k :: u64
  by auto

lemma nck_loop_Some:
  "j \<noteq> 0 \<Longrightarrow> k \<noteq> - 1 \<Longrightarrow> \<exists>c. nck_loop j k n result = Some c"
proof (induction j k n result rule: nck_loop.induct)
  case (1 j k n result)
  show ?case
  proof (cases "j \<le> k")
    case True
    with "1.prems" have nz: "j + 1 \<noteq> 0"
      using word_succ_nonzero by blast
    note ih = "1.IH" [OF True \<open>j \<noteq> 0\<close>]
    from True \<open>j \<noteq> 0\<close> have unfold: "nck_loop j k n result =
        (if n mod j = 0 then nck_loop (j + 1) k (n - 1) (result * (n div j))
         else if result mod j = 0 then nck_loop (j + 1) k (n - 1) (result div j * n)
         else nck_loop (j + 1) k (n - 1) (result * n div j))"
      by (subst nck_loop.simps) simp
    show ?thesis
    proof (cases "n mod j = 0")
      case a: True
      with unfold ih(1) [OF a nz \<open>k \<noteq> - 1\<close>] show ?thesis by simp
    next
      case a: False
      show ?thesis
      proof (cases "result mod j = 0")
        case b: True
        with a unfold ih(2) [OF a b nz \<open>k \<noteq> - 1\<close>] show ?thesis by simp
      next
        case b: False
        with a unfold ih(3) [OF a b nz \<open>k \<noteq> - 1\<close>] show ?thesis by simp
      qed
    qed
  next
    case False
    then show ?thesis
      by (subst nck_loop.simps) simp
  qed
qed

lemma n_choose_k_Some: "k \<noteq> - 1 \<Longrightarrow> \<exists>c. n_choose_k n k = Some c"
proof -
  assume k: "k \<noteq> - 1"
  have "(if k > n - k then n - k else k) \<noteq> - 1"
    using k word_less_not_max by simp
  then show ?thesis
    unfolding n_choose_k_def Let_def by (rule nck_loop_Some [OF one_neq_zero])
qed

subsection \<open>The loops of the generalized update stay inside the buffer\<close>

lemma word_sub_index: "k < i \<Longrightarrow> unat (i - k) \<le> unat i" for i k :: u64
  by unat_arith

lemma word_pred_less: "0 < k \<Longrightarrow> k < i \<Longrightarrow> k - 1 < i" for i k :: u64
  by unat_arith

lemma word_two_less: "1 < i \<Longrightarrow> i - 2 < i" for i :: u64
  by unat_arith

lemma word_pred_unat: "1 < i \<Longrightarrow> unat (i - 1) < unat i" for i :: u64
  by unat_arith

lemma cm_inner_Some:
  "1 < length buffer \<Longrightarrow> unat i < length buffer \<Longrightarrow> k < i \<Longrightarrow>
   \<exists>t. cm_inner x w s buffer i k tmp = Some t"
proof (induction x w s buffer i k tmp rule: cm_inner.induct)
  case (1 x w s buffer i k tmp)
  show ?case
  proof (cases "0 < k")
    case True
    from \<open>k < i\<close> obtain c where c: "n_choose_k i k = Some c"
      using n_choose_k_Some [of k i] word_less_not_max by blast
    from \<open>k < i\<close> \<open>unat i < length buffer\<close> have ik: "unat (i - k) < length buffer"
      using word_sub_index [of k i] by simp
    from True \<open>k < i\<close> have "k - 1 < i"
      by (rule word_pred_less)
    with "1.IH" [OF True c] ik "1.prems"(1,2)
    have "\<exists>t. cm_inner x w s buffer i (k - 1)
        (tmp + of_u64 c * buffer ! unat (i - k)
           * incstats_pow (- w * (x - buffer ! 1) / s) k) = Some t"
      by simp
    with True c ik "1.prems"(1) show ?thesis
      by (subst cm_inner.simps) simp
  next
    case False
    then show ?thesis
      by (subst cm_inner.simps) simp
  qed
qed

lemma cm_outer_Some:
  "1 < length buffer \<Longrightarrow> unat i < length buffer \<Longrightarrow>
   \<exists>b'. cm_outer x w s buffer i = Some b' \<and> length b' = length buffer"
proof (induction x w s buffer i rule: cm_outer.induct)
  case (1 x w s buffer i)
  show ?case
  proof (cases "1 < i")
    case True
    then obtain t where t: "cm_inner x w s buffer i (i - 2) (Finite 0) = Some t"
      using cm_inner_Some [OF "1.prems" word_two_less] by blast
    from "1.prems" have z: "0 < length buffer"
      by linarith
    let ?v = "buffer ! unat i + t + buffer ! 0 * incstats_pow (- w * (x - buffer ! 1) / s) i
        + w * incstats_pow (buffer ! 0 * (x - buffer ! 1) / s) i"
    from True "1.prems" have "unat (i - 1) < length (buffer[unat i := ?v])"
      using word_pred_unat [of i] by simp
    with "1.IH" [OF True t, of "buffer ! unat i" "buffer ! 0" "buffer ! 1" "buffer[unat i := ?v]"]
      "1.prems" z
    have "\<exists>b'. cm_outer x w s (buffer[unat i := ?v]) (i - 1) = Some b'
        \<and> length b' = length buffer"
      by simp
    with True t "1.prems" z show ?thesis
      by (subst cm_outer.simps) simp
  next
    case False
    then show ?thesis
      by (subst cm_outer.simps) simp
  qed
qed

lemma central_moment_Some:
  assumes "2 \<le> length buffer" and "unat p < length buffer"
  shows "\<exists>b'. incstats_central_moment x w buffer p = Some b' \<and> length b' = length buffer"
proof -
  from assms(1) have len: "0 < length buffer" "1 < length buffer"
    by linarith+
  from cm_outer_Some [OF len(2) assms(2)]
  obtain b where b: "cm_outer x w (buffer ! 0 + w) buffer p = Some b"
      and l: "length b = length buffer"
    by blast
  with len show ?thesis
    by (simp add: incstats_central_moment_def Let_def)
qed

subsection \<open>The loops of the generalized finalize\<close>

lemma word_succ_unat: "i < m \<Longrightarrow> unat (i + 1) = Suc (unat i)" for i m :: u64
  by unat_arith

lemma word_succ_le: "unat (p + 1) \<le> Suc (unat p)" for p :: u64
  by unat_arith

lemma cmf_raw_result:
  "0 < length buffer \<Longrightarrow> unat p < length buffer \<Longrightarrow> unat p < length results \<Longrightarrow>
   \<exists>r'. cmf_raw results buffer p i = Some r' \<and> length r' = length results
     \<and> (\<forall>j < length results. r' ! j =
           (if unat i \<le> j \<and> j < unat (p + 1) then buffer ! j / buffer ! 0 else results ! j))"
proof (induction results buffer p i rule: cmf_raw.induct)
  case (1 results buffer p i)
  show ?case
  proof (cases "i < p + 1")
    case True
    then have s: "unat (i + 1) = Suc (unat i)" and l: "unat i < unat (p + 1)"
      by (simp_all add: word_succ_unat word_less_nat_alt)
    with word_succ_le [of p] have ip: "unat i \<le> unat p"
      by linarith
    with "1.prems" have ib: "unat i < length buffer" and ir: "unat i < length results"
      by linarith+
    let ?r = "results[unat i := buffer ! unat i / buffer ! 0]"
    from "1.IH" [OF True, of "buffer ! unat i" "buffer ! 0" ?r] ib ir "1.prems"
    obtain r' where r': "cmf_raw ?r buffer p (i + 1) = Some r'"
        and len: "length r' = length results"
        and nth: "\<forall>j < length results. r' ! j =
           (if unat (i + 1) \<le> j \<and> j < unat (p + 1) then buffer ! j / buffer ! 0 else ?r ! j)"
      by auto
    from True ib ir "1.prems"(1) r' have "cmf_raw results buffer p i = Some r'"
      by (subst cmf_raw.simps) simp
    moreover have "r' ! j =
        (if unat i \<le> j \<and> j < unat (p + 1) then buffer ! j / buffer ! 0 else results ! j)"
      if "j < length results" for j
      using nth that s l ir by (cases "j = unat i") auto
    ultimately show ?thesis
      using len by simp
  next
    case False
    then have "cmf_raw results buffer p i = Some results"
      by (subst cmf_raw.simps) simp
    moreover from False have "\<not> (unat i \<le> j \<and> j < unat (p + 1))" for j
      by (auto simp: word_less_nat_alt)
    ultimately show ?thesis by auto
  qed
qed

lemma cmf_std_result:
  "unat p < length results \<Longrightarrow>
   \<exists>r'. cmf_std results v p i = Some r' \<and> length r' = length results
     \<and> (\<forall>j < length results. r' ! j =
           (if unat i \<le> j \<and> j < unat (p + 1)
            then results ! j / incstats_pow (c_sqrt v) (of_nat j) else results ! j))"
proof (induction results v p i rule: cmf_std.induct)
  case (1 results v p i)
  show ?case
  proof (cases "i < p + 1")
    case True
    then have s: "unat (i + 1) = Suc (unat i)" and l: "unat i < unat (p + 1)"
      by (simp_all add: word_succ_unat word_less_nat_alt)
    with word_succ_le [of p] have ip: "unat i \<le> unat p"
      by linarith
    with "1.prems" have ir: "unat i < length results"
      by linarith
    let ?r = "results[unat i := results ! unat i / incstats_pow (c_sqrt v) i]"
    from "1.IH" [OF True, of "results ! unat i" ?r] ir "1.prems"
    obtain r' where r': "cmf_std ?r v p (i + 1) = Some r'"
        and len: "length r' = length results"
        and nth: "\<forall>j < length results. r' ! j =
           (if unat (i + 1) \<le> j \<and> j < unat (p + 1)
            then ?r ! j / incstats_pow (c_sqrt v) (of_nat j) else ?r ! j)"
      by auto
    from True ir r' have "cmf_std results v p i = Some r'"
      by (subst cmf_std.simps) simp
    moreover have "r' ! j =
        (if unat i \<le> j \<and> j < unat (p + 1)
         then results ! j / incstats_pow (c_sqrt v) (of_nat j) else results ! j)"
      if "j < length results" for j
      using nth that s l ir by (cases "j = unat i") auto
    ultimately show ?thesis
      using len by simp
  next
    case False
    then have "cmf_std results v p i = Some results"
      by (subst cmf_std.simps) simp
    moreover from False have "\<not> (unat i \<le> j \<and> j < unat (p + 1))" for j
      by (auto simp: word_less_nat_alt)
    ultimately show ?thesis by auto
  qed
qed

section \<open>Orders 0 and 1 of the generalized update\<close>

text \<open>
  C10. For \<open>p = 0\<close> and \<open>p = 1\<close>, \<^verbatim>\<open>incstats_central_moment\<close> on a buffer of length at least
  2 returns the buffer that \<^verbatim>\<open>incstats_mean\<close> returns: slot 0 becomes the old weight plus
  \<open>w\<close>, slot 1 becomes the old mean plus \<open>w / (old weight + w) * (x - old mean)\<close>, and
  every slot from 2 on keeps its value.
\<close>

theorem central_moment_order01_is_mean:
  assumes "p = 0 \<or> p = 1" and "2 \<le> length buffer"
  shows "\<exists>b'. incstats_central_moment x w buffer p = Some b'
          \<and> incstats_mean x w buffer = Some b'
          \<and> length b' = length buffer
          \<and> b' ! 0 = buffer ! 0 + w
          \<and> b' ! 1 = buffer ! 1 + w / (buffer ! 0 + w) * (x - buffer ! 1)
          \<and> (\<forall>j. 2 \<le> j \<and> j < length buffer \<longrightarrow> b' ! j = buffer ! j)"
proof -
  let ?b = "buffer[1 := buffer ! 1 + w / (buffer ! 0 + w) * (x - buffer ! 1),
                    0 := buffer ! 0 + w]"
  from assms(2) have len: "0 < length buffer" "1 < length buffer"
    by linarith+
  from assms(1) len have "incstats_central_moment x w buffer p = Some ?b"
    by (simp add: incstats_central_moment_def cm_outer_low Let_def)
  moreover from len have "incstats_mean x w buffer = Some ?b"
    by (simp add: incstats_mean_def list_update_swap)
  moreover from len have "?b ! 0 = buffer ! 0 + w"
    and "?b ! 1 = buffer ! 1 + w / (buffer ! 0 + w) * (x - buffer ! 1)"
    by simp_all
  ultimately show ?thesis by simp
qed

theorem central_moment_order01_is_mean_witness:
  "((1 :: u64) = 0 \<or> (1 :: u64) = 1) \<and> 2 \<le> length [Finite 1, Finite 2, Finite 7]
   \<and> (\<exists>b'. incstats_central_moment (Finite 4) (Finite 1) [Finite 1, Finite 2, Finite 7] 1
              = Some b'
          \<and> incstats_mean (Finite 4) (Finite 1) [Finite 1, Finite 2, Finite 7] = Some b'
          \<and> b' ! 0 = Finite 2 \<and> b' ! 1 = Finite 3 \<and> b' ! 2 = Finite 7)"
  using central_moment_order01_is_mean [of 1 "[Finite 1, Finite 2, Finite 7]" "Finite 4" "Finite 1"]
  by auto

section \<open>Update order inside the kurtosis update\<close>

text \<open>
  C4, as the code has it. In one call of \<^verbatim>\<open>incstats_kurtosis\<close> on a buffer of length at
  least 5, the new \<^verbatim>\<open>buffer[4]\<close> is the order-4 expression evaluated with the value that
  \<^verbatim>\<open>buffer[3]\<close> had before the call: slot 4 is written first, slot 3 afterwards.
\<close>

theorem kurtosis_order4_reads_old_order3:
  assumes "5 \<le> length buffer"
  shows "\<exists>b'. incstats_kurtosis x w buffer = Some b'
          \<and> b' ! 4 = kurtosis_order4 x w buffer (buffer ! 3)"
proof -
  from assms have len: "0 < length buffer" "1 < length buffer" "2 < length buffer"
    "3 < length buffer" "4 < length buffer"
    by linarith+
  then show ?thesis
    by (simp add: incstats_kurtosis_def kurtosis_order4_def Let_def)
qed

theorem kurtosis_order4_reads_old_order3_witness:
  "5 \<le> length [Finite 1, Finite 0, Finite 0, Finite 0, Finite 0]
   \<and> (\<exists>b'. incstats_kurtosis (Finite 1) (Finite 2)
               [Finite 1, Finite 0, Finite 0, Finite 0, Finite 0] = Some b'
          \<and> b' ! 4 = kurtosis_order4 (Finite 1) (Finite 2)
               [Finite 1, Finite 0, Finite 0, Finite 0, Finite 0] (Finite 0))"
  using kurtosis_order4_reads_old_order3
    [of "[Finite 1, Finite 0, Finite 0, Finite 0, Finite 0]" "Finite 1" "Finite 2"]
  by simp

text \<open>
  C4, as stated, fails. For the buffer \<open>[1, 0, 0, 0, 0]\<close> and the sample \<open>x = 1\<close>,
  \<open>w = 2\<close> the call writes slot 3 = \<open>-2/9\<close> and slot 4 = \<open>2/9\<close>, which is not the order-4
  expression evaluated with the updated slot 3.
\<close>

theorem kurtosis_order4_updated_order3_counterexample:
  "incstats_kurtosis (Finite 1) (Finite 2) [Finite 1, Finite 0, Finite 0, Finite 0, Finite 0]
     = Some [Finite 3, Finite (2 / 3), Finite (2 / 3), Finite (- 2 / 9), Finite (2 / 9)]
   \<and> [Finite 3, Finite (2 / 3), Finite (2 / 3), Finite (- 2 / 9), Finite (2 / 9)] ! 4
     \<noteq> kurtosis_order4 (Finite 1) (Finite 2)
         [Finite 1, Finite 0, Finite 0, Finite 0, Finite 0]
         ([Finite 3, Finite (2 / 3), Finite (2 / 3), Finite (- 2 / 9), Finite (2 / 9)] ! 3)"
  by (simp add: incstats_kurtosis_def kurtosis_order4_def incstats_pow_def pow_loop.simps
      word_cmp)

section \<open>Repeating the generalized finalize\<close>

text \<open>
  C8, at the input where the code departs from it. With \<open>p = 1\<close> and \<open>standardize\<close> set,
  \<^verbatim>\<open>incstats_central_moment_finalize\<close> reads \<^verbatim>\<open>results[2]\<close> as the variance although this call
  has not written it. On the accumulator \<open>[1, 4]\<close> (one sample \<open>x = 4\<close>, \<open>w = 1\<close>) and a
  zeroed results array the first call divides \<open>0\<close> by \<open>sqrt 0\<close> and leaves no number in
  \<^verbatim>\<open>results[1]\<close>; the second call, on the same accumulator, finds the mean \<open>4\<close> in
  \<^verbatim>\<open>results[2]\<close> and writes \<open>0\<close> there. The accumulator is the same after both calls.
\<close>

theorem central_moment_finalize_rereads_results:
  "incstats_central_moment (Finite 4) (Finite 1) [Finite 0, Finite 0] 1
     = Some [Finite 1, Finite 4]
   \<and> incstats_central_moment_finalize [Finite 0, Finite 0, Finite 0] [Finite 1, Finite 4] 1 True
     = Some ([Finite 1, NonFinite, Finite 4], [Finite 1, Finite 4])
   \<and> incstats_central_moment_finalize [Finite 1, NonFinite, Finite 4] [Finite 1, Finite 4] 1 True
     = Some ([Finite 1, Finite 0, Finite 4], [Finite 1, Finite 4])"
  by (simp add: incstats_central_moment_def cm_outer.simps
      incstats_central_moment_finalize_def cmf_raw.simps cmf_std.simps
      incstats_pow_def pow_loop.simps word_cmp)

section \<open>Array accesses of the generalized update and finalize\<close>

lemma central_moment_finalize_Some:
  assumes "2 \<le> length buffer" and "unat p < length buffer"
    and "unat p + 2 \<le> length results" and "standardize \<longrightarrow> 3 \<le> length results"
  shows "\<exists>r'. incstats_central_moment_finalize results buffer p standardize = Some (r', buffer)
          \<and> length r' = length results"
proof -
  from assms have len: "0 < length buffer" "1 < length buffer"
      "0 < length results" "1 < length results" "unat p < length results"
    by linarith+
  let ?r1 = "results[0 := Finite 1, 1 := Finite 0]"
  from len assms(2) obtain r2 where r2: "cmf_raw ?r1 buffer p 2 = Some r2"
      and l2: "length r2 = length results"
    using cmf_raw_result [of buffer p ?r1 2] by auto
  have "\<exists>r3. (if standardize then rd r2 2 \<bind> (\<lambda>variance. cmf_std r2 variance p 0) else Some r2)
      = Some r3 \<and> length r3 = length results"
  proof (cases standardize)
    case True
    with assms(4) l2 have "2 < length r2"
      by linarith
    moreover from len l2 obtain r3 where "cmf_std r2 (r2 ! 2) p 0 = Some r3"
        and "length r3 = length results"
      using cmf_std_result [of p r2 "r2 ! 2" 0] by auto
    ultimately show ?thesis
      using True by simp
  next
    case False
    with l2 show ?thesis by simp
  qed
  then obtain r3 where r3: "(if standardize
        then rd r2 2 \<bind> (\<lambda>variance. cmf_std r2 variance p 0) else Some r2) = Some r3"
      and l3: "length r3 = length results"
    by blast
  from assms(3) have "unat (p + 1) < length results"
    using word_succ_le [of p] by linarith
  with len r2 r3 l3 show ?thesis
    by (simp add: incstats_central_moment_finalize_def)
qed

text \<open>
  C9, as the code has it. For every order \<open>p\<close>, on a buffer of length at least
  \<open>max 2 (p + 1)\<close> the update \<^verbatim>\<open>incstats_central_moment\<close> returns a buffer: no read or write
  leaves the array (and the binomial coefficient divides by no zero). When moreover the
  results array has length at least \<open>p + 2\<close>, and \<open>p\<close> is at least 1 where \<open>standardize\<close> is
  set, \<^verbatim>\<open>incstats_central_moment_finalize\<close> returns as well.
\<close>

theorem central_moment_accesses_in_bounds:
  assumes "max 2 (unat p + 1) \<le> length buffer"
  shows "(\<exists>b'. incstats_central_moment x w buffer p = Some b')
    \<and> (unat p + 2 \<le> length results \<and> (standardize \<longrightarrow> 1 \<le> p)
        \<longrightarrow> (\<exists>r'. incstats_central_moment_finalize results buffer p standardize = Some r'))"
proof -
  from assms have len: "2 \<le> length buffer" "unat p < length buffer"
    by simp_all
  from central_moment_Some [OF len, of x w] have "\<exists>b'. incstats_central_moment x w buffer p = Some b'"
    by blast
  moreover have "\<exists>r'. incstats_central_moment_finalize results buffer p standardize = Some r'"
    if r: "unat p + 2 \<le> length results" and s: "standardize \<longrightarrow> 1 \<le> p"
  proof -
    have "standardize \<longrightarrow> 3 \<le> length results"
    proof
      assume standardize
      with s have "1 \<le> unat p"
        by (simp add: word_le_nat_alt)
      with r show "3 \<le> length results"
        by linarith
    qed
    from central_moment_finalize_Some [OF len r this] show ?thesis
      by blast
  qed
  ultimately show ?thesis by blast
qed

theorem central_moment_accesses_in_bounds_witness:
  "max 2 (unat (3 :: u64) + 1) \<le> length [Finite 1, Finite 0, Finite 4, Finite 0]
   \<and> unat (3 :: u64) + 2 \<le> length [Finite 0, Finite 0, Finite 0, Finite 0, Finite 0]
   \<and> (1 :: u64) \<le> 3
   \<and> (\<exists>b'. incstats_central_moment (Finite 2) (Finite 1)
               [Finite 1, Finite 0, Finite 4, Finite 0] 3 = Some b')
   \<and> (\<exists>r'. incstats_central_moment_finalize [Finite 0, Finite 0, Finite 0, Finite 0, Finite 0]
               [Finite 1, Finite 0, Finite 4, Finite 0] 3 True = Some r')"
  using central_moment_accesses_in_bounds [of 3 "[Finite 1, Finite 0, Finite 4, Finite 0]"
      "Finite 2" "Finite 1" "[Finite 0, Finite 0, Finite 0, Finite 0, Finite 0]" True]
  by (simp add: word_le_nat_alt)

text \<open>
  C9, as stated, fails at \<open>p = 0\<close>. A buffer of length \<open>p + 1 = 1\<close> is too short for the
  update and for the finalize, which both read \<^verbatim>\<open>buffer[1]\<close>; and with \<open>standardize\<close> set
  the finalize reads \<^verbatim>\<open>results[2]\<close>, outside a results array of length \<open>p + 2 = 2\<close>.
\<close>

theorem central_moment_short_buffer_counterexample:
  "unat (0 :: u64) + 1 \<le> length [Finite 0]
   \<and> incstats_central_moment (Finite 1) (Finite 1) [Finite 0] 0 = None
   \<and> unat (0 :: u64) + 2 \<le> length [Finite 0, Finite 0]
   \<and> incstats_central_moment_finalize [Finite 0, Finite 0] [Finite 1] 0 False = None
   \<and> incstats_central_moment_finalize [Finite 0, Finite 0] [Finite 1, Finite 0] 0 True = None"
  by (simp add: incstats_central_moment_def cm_outer.simps
      incstats_central_moment_finalize_def cmf_raw.simps word_cmp)

section \<open>What the generalized finalize writes\<close>

lemma list4_eq: "length r = 4 \<Longrightarrow> r ! 0 = a \<Longrightarrow> r ! 1 = b \<Longrightarrow> r ! 2 = c \<Longrightarrow> r ! 3 = d \<Longrightarrow>
  r = [a, b, c, d]"
  by (cases r; cases "tl r"; cases "tl (tl r)"; cases "tl (tl (tl r))") auto

lemma word_succ_exact: "unat p + 2 \<le> n \<Longrightarrow> n \<le> 2 ^ 64 \<Longrightarrow> unat (p + 1) = Suc (unat p)"
  for p :: u64
proof -
  assume "unat p + 2 \<le> n" and "n \<le> 2 ^ 64"
  then have "unat p + unat (1 :: u64) < 2 ^ LENGTH(64)"
    by simp
  then have "unat (p + 1) = unat p + unat (1 :: u64)"
    by (simp only: unat_add_lem)
  then show ?thesis by simp
qed

lemma central_moment_finalize_char:
  assumes "2 \<le> p" and "unat p + 1 \<le> length buffer" and "unat p + 2 \<le> length results"
    and "unat (p + 1) = Suc (unat p)"
  shows "\<exists>r'. incstats_central_moment_finalize results buffer p standardize = Some (r', buffer)
    \<and> length r' = length results
    \<and> (\<forall>j < length results. r' ! j =
         (if j = unat p + 1 then buffer ! 1
          else if unat p < j then results ! j
          else if standardize
            then (if j = 0 then Finite 1 else if j = 1 then Finite 0
                  else buffer ! j / buffer ! 0)
                 / incstats_pow (c_sqrt (buffer ! 2 / buffer ! 0)) (of_nat j)
            else (if j = 0 then Finite 1 else if j = 1 then Finite 0
                  else buffer ! j / buffer ! 0)))"
proof -
  from assms(1) have p2: "2 \<le> unat p"
    by (simp add: word_le_nat_alt)
  note succ = assms(4)
  from p2 assms(2,3) have len: "0 < length buffer" "1 < length buffer" "unat p < length buffer"
      "0 < length results" "1 < length results" "2 < length results" "unat p < length results"
      "Suc (unat p) < length results"
    by linarith+
  let ?raw = "\<lambda>j. if j = 0 then Finite 1 else if j = 1 then Finite 0 else buffer ! j / buffer ! 0"
  let ?r1 = "results[0 := Finite 1, 1 := Finite 0]"
  from len obtain r2 where r2: "cmf_raw ?r1 buffer p 2 = Some r2"
      and l2: "length r2 = length results"
      and n2: "\<forall>j < length results. r2 ! j =
        (if unat (2 :: u64) \<le> j \<and> j < unat (p + 1) then buffer ! j / buffer ! 0 else ?r1 ! j)"
    using cmf_raw_result [of buffer p ?r1 2] by auto
  have raw: "r2 ! j = (if j \<le> unat p then ?raw j else results ! j)" if "j < length results" for j
    using n2 that succ len p2 by (auto simp: nth_list_update)
  from raw [of 2] len p2 have v: "r2 ! 2 = buffer ! 2 / buffer ! 0"
    by simp
  have std: "\<exists>r3. (if standardize
        then rd r2 2 \<bind> (\<lambda>variance. cmf_std r2 variance p 0) else Some r2) = Some r3
      \<and> length r3 = length results
      \<and> (\<forall>j < length results. r3 ! j =
           (if j \<le> unat p
            then (if standardize
                  then ?raw j / incstats_pow (c_sqrt (buffer ! 2 / buffer ! 0)) (of_nat j)
                  else ?raw j)
            else results ! j))"
  proof (cases standardize)
    case True
    from len l2 obtain r3 where r3: "cmf_std r2 (r2 ! 2) p 0 = Some r3"
        and l3: "length r3 = length results"
        and n3: "\<forall>j < length r2. r3 ! j =
          (if unat (0 :: u64) \<le> j \<and> j < unat (p + 1)
           then r2 ! j / incstats_pow (c_sqrt (r2 ! 2)) (of_nat j) else r2 ! j)"
      using cmf_std_result [of p r2 "r2 ! 2" 0] by auto
    have "r3 ! j = (if j \<le> unat p
          then ?raw j / incstats_pow (c_sqrt (buffer ! 2 / buffer ! 0)) (of_nat j)
          else results ! j)" if "j < length results" for j
      using n3 that l2 succ raw [OF that] v by auto
    with True r3 l3 len l2 show ?thesis
      by simp
  next
    case False
    with raw l2 show ?thesis by simp
  qed
  then obtain r3 where r3: "(if standardize
        then rd r2 2 \<bind> (\<lambda>variance. cmf_std r2 variance p 0) else Some r2) = Some r3"
      and l3: "length r3 = length results"
      and n3: "\<And>j. j < length results \<Longrightarrow> r3 ! j =
           (if j \<le> unat p
            then (if standardize
                  then ?raw j / incstats_pow (c_sqrt (buffer ! 2 / buffer ! 0)) (of_nat j)
                  else ?raw j)
            else results ! j)"
    by blast
  let ?r4 = "r3[Suc (unat p) := buffer ! 1]"
  from len r2 r3 l3 succ
  have "incstats_central_moment_finalize results buffer p standardize = Some (?r4, buffer)"
    by (simp add: incstats_central_moment_finalize_def)
  moreover have "length ?r4 = length results"
    using l3 by simp
  moreover have "?r4 ! j =
         (if j = unat p + 1 then buffer ! 1
          else if unat p < j then results ! j
          else if standardize
            then ?raw j / incstats_pow (c_sqrt (buffer ! 2 / buffer ! 0)) (of_nat j)
            else ?raw j)" if "j < length results" for j
    using n3 [OF that] that l3 by (auto simp: nth_list_update)
  ultimately show ?thesis
    by blast
qed

text \<open>
  C5. For every order \<open>p \<ge> 2\<close> and every buffer with a positive slot 0, on arrays that
  satisfy the sizing contract (buffer of length at least \<open>p + 1\<close>, results of length at
  least \<open>p + 2\<close>; an array has at most \<open>2\<^sup>6\<^sup>4\<close> elements, its indices being \<^verbatim>\<open>uint64_t\<close>)
  \<^verbatim>\<open>incstats_central_moment_finalize\<close> returns the buffer as it was and results with:
  index \<open>p + 1\<close> the mean \<^verbatim>\<open>buffer[1]\<close>; index 0 the value 1, index 1 the value 0 and index
  \<open>j\<close> in \<open>2..p\<close> the value \<^verbatim>\<open>buffer[j] / buffer[0]\<close>, each divided by
  \<open>sqrt (buffer[2] / buffer[0]) ^ j\<close> when \<open>standardize\<close> is set; every index above
  \<open>p + 1\<close> as it was.
\<close>

theorem central_moment_finalize_results:
  assumes "2 \<le> p" and "buffer ! 0 = Finite b0" and "0 < b0"
    and "unat p + 1 \<le> length buffer" and "unat p + 2 \<le> length results"
    and "length results \<le> 2 ^ 64"
  shows "\<exists>r'. incstats_central_moment_finalize results buffer p standardize = Some (r', buffer)
    \<and> length r' = length results
    \<and> (\<forall>j < length results. r' ! j =
         (if j = unat p + 1 then buffer ! 1
          else if unat p < j then results ! j
          else if standardize
            then (if j = 0 then Finite 1 else if j = 1 then Finite 0
                  else buffer ! j / buffer ! 0)
                 / incstats_pow (c_sqrt (buffer ! 2 / buffer ! 0)) (of_nat j)
            else (if j = 0 then Finite 1 else if j = 1 then Finite 0
                  else buffer ! j / buffer ! 0)))"
  using central_moment_finalize_char [OF assms(1,4,5) word_succ_exact [OF assms(5,6)]] .

theorem central_moment_finalize_results_witness:
  "(2 :: u64) \<le> 2 \<and> [Finite 1, Finite 5, Finite 4] ! 0 = Finite 1 \<and> (0 :: real) < 1
   \<and> unat (2 :: u64) + 1 \<le> length [Finite 1, Finite 5, Finite 4]
   \<and> unat (2 :: u64) + 2 \<le> length [Finite 0, Finite 0, Finite 0, Finite 0]
   \<and> length [Finite 0, Finite 0, Finite 0, Finite 0] \<le> 2 ^ 64
   \<and> incstats_central_moment_finalize [Finite 0, Finite 0, Finite 0, Finite 0]
         [Finite 1, Finite 5, Finite 4] 2 True
       = Some ([Finite 1, Finite 0, Finite 1, Finite 5], [Finite 1, Finite 5, Finite 4])"
proof -
  let ?b = "[Finite 1, Finite 5, Finite 4]" and ?r = "[Finite 0, Finite 0, Finite 0, Finite 0]"
  have h: "(2 :: u64) \<le> 2" "?b ! 0 = Finite 1" "(0 :: real) < 1"
      "unat (2 :: u64) + 1 \<le> length ?b" "unat (2 :: u64) + 2 \<le> length ?r"
      "length ?r \<le> 2 ^ 64"
    by simp_all
  from central_moment_finalize_results [OF h, of True]
  obtain r' where f: "incstats_central_moment_finalize ?r ?b 2 True = Some (r', ?b)"
      and l: "length r' = 4"
      and n: "\<And>j. j < 4 \<Longrightarrow> r' ! j =
         (if j = 3 then Finite 5
          else if 2 < j then Finite 0
          else (if j = 0 then Finite 1 else if j = 1 then Finite 0
                  else ?b ! j / Finite 1)
                 / incstats_pow (c_sqrt (Finite 4 / Finite 1)) (of_nat j))"
    by auto
  have "r' ! 0 = Finite 1" "r' ! 1 = Finite 0" "r' ! 2 = Finite 1" "r' ! 3 = Finite 5"
    using n [of 0] n [of 1] n [of 2] n [of 3] by simp_all
  with l have "r' = [Finite 1, Finite 0, Finite 1, Finite 5]"
    by (rule list4_eq)
  with f h show ?thesis
    by simp
qed

section \<open>An update of weight zero\<close>

lemma map_Finite_update_same:
  "i < length rs \<Longrightarrow> (map Finite rs)[i := Finite (rs ! i)] = map Finite rs"
  by (simp add: map_update [symmetric])

lemma word_pos_unat: "0 < k \<Longrightarrow> 0 < unat k" for k :: u64
  by (simp add: word_less_nat_alt)

lemma word_gt1_unat: "1 < i \<Longrightarrow> 0 < unat i" for i :: u64
  by (simp add: word_less_nat_alt)

lemma cm_inner_zero_weight:
  "1 < length rs \<Longrightarrow> unat i < length rs \<Longrightarrow> k < i \<Longrightarrow> s \<noteq> 0 \<Longrightarrow>
   cm_inner (Finite x) (Finite 0) (Finite s) (map Finite rs) i k (Finite t) = Some (Finite t)"
proof (induction "Finite x" "Finite 0" "Finite s" "map Finite rs" i k "Finite t"
    rule: cm_inner.induct)
  case (1 i k)
  show ?case
  proof (cases "0 < k")
    case True
    from \<open>k < i\<close> obtain c where c: "n_choose_k i k = Some c"
      using n_choose_k_Some [of k i] word_less_not_max by blast
    from \<open>k < i\<close> \<open>unat i < length rs\<close> have ik: "unat (i - k) < length rs"
      using word_sub_index [of k i] by simp
    from True \<open>k < i\<close> have k1: "k - 1 < i"
      by (rule word_pred_less)
    from True have kp: "0 < unat k"
      by (rule word_pos_unat)
    have step: "Finite t + of_u64 c * Finite (rs ! unat (i - k))
        * incstats_pow (- Finite 0 * (Finite x - Finite (rs ! 1)) / Finite s) k = Finite t"
      using \<open>s \<noteq> 0\<close> kp by (simp add: of_u64_def)
    from "1.hyps" [OF True c, of "Finite (rs ! unat (i - k))" "Finite (rs ! 1)"]
      ik "1.prems" k1 step
    have "cm_inner (Finite x) (Finite 0) (Finite s) (map Finite rs) i (k - 1) (Finite t)
        = Some (Finite t)"
      by simp
    with True c ik "1.prems"(1) step show ?thesis
      by (subst cm_inner.simps) simp
  next
    case False
    then show ?thesis
      by (subst cm_inner.simps) simp
  qed
qed

lemma cm_outer_zero_weight:
  "buffer = map Finite rs \<Longrightarrow> x = Finite x' \<Longrightarrow> w = Finite 0 \<Longrightarrow> sw = Finite s \<Longrightarrow>
   1 < length rs \<Longrightarrow> unat i < length rs \<Longrightarrow> s \<noteq> 0 \<Longrightarrow>
   cm_outer x w sw buffer i = Some buffer"
proof (induction x w sw buffer i rule: cm_outer.induct)
  case (1 x w sw buffer i)
  note eqs = "1.prems"(1-4)
  show ?case
  proof (cases "1 < i")
    case True
    from "1.prems" have z: "0 < length rs"
      by linarith
    from True have ip: "0 < unat i"
      by (rule word_gt1_unat)
    have t: "cm_inner x w sw buffer i (i - 2) (Finite 0) = Some (Finite 0)"
      unfolding eqs
      using cm_inner_zero_weight [OF "1.prems"(5,6) word_two_less [OF True] "1.prems"(7)] .
    have r: "rd buffer (unat i) = Some (Finite (rs ! unat i))"
        "rd buffer 0 = Some (Finite (rs ! 0))" "rd buffer 1 = Some (Finite (rs ! 1))"
      using eqs "1.prems"(5,6) z by simp_all
    have v: "Finite (rs ! unat i) + Finite 0
        + Finite (rs ! 0) * incstats_pow (- w * (x - Finite (rs ! 1)) / sw) i
        + w * incstats_pow (Finite (rs ! 0) * (x - Finite (rs ! 1)) / sw) i
        = Finite (rs ! unat i)"
      using \<open>s \<noteq> 0\<close> ip eqs by simp
    have u: "wr buffer (unat i) (Finite (rs ! unat i) + Finite 0
        + Finite (rs ! 0) * incstats_pow (- w * (x - Finite (rs ! 1)) / sw) i
        + w * incstats_pow (Finite (rs ! 0) * (x - Finite (rs ! 1)) / sw) i) = Some buffer"
      unfolding v using eqs "1.prems"(6) by (simp add: map_Finite_update_same)
    from True "1.prems" have "unat (i - 1) < length rs"
      using word_pred_unat [of i] by simp
    with "1.IH" [OF True t r u eqs "1.prems"(5) _ "1.prems"(7)]
    have "cm_outer x w sw buffer (i - 1) = Some buffer"
      by simp
    with True t r u show ?thesis
      by (subst cm_outer.simps) simp
  next
    case False
    then show ?thesis
      by (subst cm_outer.simps) simp
  qed
qed


lemma central_moment_zero_weight:
  assumes "0 < rs ! 0" and "max 2 (unat p + 1) \<le> length rs"
  shows "incstats_central_moment (Finite x) (Finite 0) (map Finite rs) p = Some (map Finite rs)"
proof -
  from assms(2) have "2 \<le> length rs \<and> unat p + 1 \<le> length rs"
    by (simp only: max.bounded_iff)
  then have len: "0 < length rs" "1 < length rs" "unat p < length rs"
    by linarith+
  from assms(1) have s: "rs ! 0 + 0 \<noteq> 0"
    by simp
  have "cm_outer (Finite x) (Finite 0) (Finite (rs ! 0 + 0)) (map Finite rs) p
      = Some (map Finite rs)"
    using cm_outer_zero_weight [OF refl refl refl refl len(2,3) s] .
  with len assms(1) show ?thesis
    by (simp add: incstats_central_moment_def Let_def map_Finite_update_same)
qed

lemma mean_zero_weight:
  assumes "0 < rs ! 0" and "2 \<le> length rs"
  shows "incstats_mean (Finite x) (Finite 0) (map Finite rs) = Some (map Finite rs)"
proof -
  from assms(2) have len: "0 < length rs" "1 < length rs"
    by linarith+
  with assms(1) show ?thesis
    by (simp add: incstats_mean_def map_Finite_update_same)
qed

lemma variance_zero_weight:
  assumes "0 < rs ! 0" and "3 \<le> length rs"
  shows "incstats_variance (Finite x) (Finite 0) (map Finite rs) = Some (map Finite rs)"
proof -
  from assms(2) have len: "0 < length rs" "1 < length rs" "2 < length rs"
    by linarith+
  with assms(1) show ?thesis
    by (simp add: incstats_variance_def Let_def map_Finite_update_same)
qed

lemma skewness_zero_weight:
  assumes "0 < rs ! 0" and "4 \<le> length rs"
  shows "incstats_skewness (Finite x) (Finite 0) (map Finite rs) = Some (map Finite rs)"
proof -
  from assms(2) have len: "0 < length rs" "1 < length rs" "2 < length rs" "3 < length rs"
    by linarith+
  with assms(1) show ?thesis
    by (simp add: incstats_skewness_def Let_def map_Finite_update_same)
qed

lemma kurtosis_zero_weight:
  assumes "0 < rs ! 0" and "5 \<le> length rs"
  shows "incstats_kurtosis (Finite x) (Finite 0) (map Finite rs) = Some (map Finite rs)"
proof -
  from assms(2) have len: "0 < length rs" "1 < length rs" "2 < length rs" "3 < length rs"
      "4 < length rs"
    by linarith+
  with assms(1) show ?thesis
    by (simp add: incstats_kurtosis_def Let_def map_Finite_update_same)
qed

text \<open>
  C7, as the code has it. Over exact real arithmetic, on a buffer of real numbers whose
  slot 0 is strictly positive, an update with weight 0 returns the buffer as it was, for
  every real value \<open>x\<close> and for each of \<^verbatim>\<open>incstats_mean\<close>, \<^verbatim>\<open>incstats_variance\<close>,
  \<^verbatim>\<open>incstats_skewness\<close>, \<^verbatim>\<open>incstats_kurtosis\<close> and \<^verbatim>\<open>incstats_central_moment\<close> (every order
  \<open>p\<close>), the buffer being long enough for the function.
\<close>

theorem zero_weight_update_is_identity:
  assumes "rs \<noteq> []" and "0 < rs ! 0"
  shows "(2 \<le> length rs \<longrightarrow>
            incstats_mean (Finite x) (Finite 0) (map Finite rs) = Some (map Finite rs))
    \<and> (3 \<le> length rs \<longrightarrow>
            incstats_variance (Finite x) (Finite 0) (map Finite rs) = Some (map Finite rs))
    \<and> (4 \<le> length rs \<longrightarrow>
            incstats_skewness (Finite x) (Finite 0) (map Finite rs) = Some (map Finite rs))
    \<and> (5 \<le> length rs \<longrightarrow>
            incstats_kurtosis (Finite x) (Finite 0) (map Finite rs) = Some (map Finite rs))
    \<and> (max 2 (unat p + 1) \<le> length rs \<longrightarrow>
            incstats_central_moment (Finite x) (Finite 0) (map Finite rs) p
              = Some (map Finite rs))"
  using assms(2) mean_zero_weight variance_zero_weight skewness_zero_weight
    kurtosis_zero_weight central_moment_zero_weight
  by blast

theorem zero_weight_update_is_identity_witness:
  "[2, 5, 3, 1, 7, 4 :: real] \<noteq> [] \<and> 0 < [2, 5, 3, 1, 7, 4 :: real] ! 0
   \<and> 2 \<le> length [2, 5, 3, 1, 7, 4 :: real]
   \<and> incstats_mean (Finite 9) (Finite 0) (map Finite [2, 5, 3, 1, 7, 4])
        = Some (map Finite [2, 5, 3, 1, 7, 4])
   \<and> 3 \<le> length [2, 5, 3, 1, 7, 4 :: real]
   \<and> incstats_variance (Finite 9) (Finite 0) (map Finite [2, 5, 3, 1, 7, 4])
        = Some (map Finite [2, 5, 3, 1, 7, 4])
   \<and> 4 \<le> length [2, 5, 3, 1, 7, 4 :: real]
   \<and> incstats_skewness (Finite 9) (Finite 0) (map Finite [2, 5, 3, 1, 7, 4])
        = Some (map Finite [2, 5, 3, 1, 7, 4])
   \<and> 5 \<le> length [2, 5, 3, 1, 7, 4 :: real]
   \<and> incstats_kurtosis (Finite 9) (Finite 0) (map Finite [2, 5, 3, 1, 7, 4])
        = Some (map Finite [2, 5, 3, 1, 7, 4])
   \<and> max 2 (unat (5 :: u64) + 1) \<le> length [2, 5, 3, 1, 7, 4 :: real]
   \<and> incstats_central_moment (Finite 9) (Finite 0) (map Finite [2, 5, 3, 1, 7, 4]) 5
        = Some (map Finite [2, 5, 3, 1, 7, 4])"
  using zero_weight_update_is_identity [of "[2, 5, 3, 1, 7, 4]" 9 5]
  by simp

text \<open>
  C7, as stated, fails: it is not for every value \<open>x\<close> of the type. No update tests its
  sample, and with a sample that is not a real number (an infinity or NaN) the product
  of the zero weight with the deviation \<open>x - mean\<close> is not zero: on buffers whose slot 0
  is 1 the update of weight 0 leaves the weight and replaces the mean, and every moment
  slot, by a value that is not a number.
\<close>

theorem zero_weight_nonfinite_sample_counterexample:
  "(0 :: real) < 1
   \<and> incstats_mean NonFinite (Finite 0) [Finite 1, Finite 2] = Some [Finite 1, NonFinite]
   \<and> incstats_variance NonFinite (Finite 0) [Finite 1, Finite 2, Finite 3]
       = Some [Finite 1, NonFinite, NonFinite]
   \<and> incstats_skewness NonFinite (Finite 0) [Finite 1, Finite 2, Finite 3, Finite 4]
       = Some [Finite 1, NonFinite, NonFinite, NonFinite]
   \<and> incstats_kurtosis NonFinite (Finite 0) [Finite 1, Finite 2, Finite 3, Finite 4, Finite 5]
       = Some [Finite 1, NonFinite, NonFinite, NonFinite, NonFinite]
   \<and> incstats_central_moment NonFinite (Finite 0) [Finite 1, Finite 2, Finite 3] 2
       = Some [Finite 1, NonFinite, NonFinite]
   \<and> [Finite 1, NonFinite] \<noteq> [Finite 1, Finite 2]"
  by (simp add: incstats_mean_def incstats_variance_def incstats_skewness_def
      incstats_kurtosis_def incstats_central_moment_def cm_outer.simps cm_inner.simps
      word_cmp Let_def)

section \<open>The generalized update reads before it writes\<close>

lemma rd_agree:
  "length cur = length old \<Longrightarrow> (j < length old \<Longrightarrow> cur ! j = old ! j) \<Longrightarrow> rd cur j = rd old j"
  by (simp add: rd_def)

lemma word_sub_index_less: "0 < k \<Longrightarrow> k < i \<Longrightarrow> unat (i - k) < unat i" for i k :: u64
  by unat_arith

lemma word_gt1_unat_gt1: "1 < i \<Longrightarrow> 1 < unat i" for i :: u64
  by (simp add: word_less_nat_alt)

lemma cm_inner_agree:
  "length cur = length old \<Longrightarrow> (\<forall>j. j < unat i \<longrightarrow> j < length old \<longrightarrow> cur ! j = old ! j) \<Longrightarrow>
   k < i \<Longrightarrow> 1 < i \<Longrightarrow>
   cm_inner x w sw cur i k tmp = cm_inner x w sw old i k tmp"
proof (induction x w sw cur i k tmp rule: cm_inner.induct)
  case (1 x w sw cur i k tmp)
  show ?case
  proof (cases "0 < k")
    case True
    from True \<open>k < i\<close> have "unat (i - k) < unat i"
      by (rule word_sub_index_less)
    with "1.prems"(1,2) have r1: "rd cur (unat (i - k)) = rd old (unat (i - k))"
      by (intro rd_agree) simp_all
    from \<open>1 < i\<close> have "1 < unat i"
      by (rule word_gt1_unat_gt1)
    with "1.prems"(1,2) have r2: "rd cur 1 = rd old 1"
      by (intro rd_agree) simp_all
    from True \<open>k < i\<close> have k1: "k - 1 < i"
      by (rule word_pred_less)
    show ?thesis
    proof (cases "n_choose_k i k")
      case None
      with True show ?thesis
        by (subst cm_inner.simps, subst (2) cm_inner.simps) simp
    next
      case c: (Some c)
      show ?thesis
      proof (cases "rd old (unat (i - k))")
        case None
        with True r1 c show ?thesis
          by (subst cm_inner.simps, subst (2) cm_inner.simps) simp
      next
        case a: (Some a)
        show ?thesis
        proof (cases "rd old 1")
          case None
          with True r1 r2 c a show ?thesis
            by (subst cm_inner.simps, subst (2) cm_inner.simps) simp
        next
          case b: (Some b)
          from a b r1 r2 have "rd cur (unat (i - k)) = Some a" "rd cur 1 = Some b"
            by simp_all
          from "1.IH" [OF True c this "1.prems"(1,2) k1 "1.prems"(4)] True r1 r2 c a b
          show ?thesis
            by (subst cm_inner.simps, subst (2) cm_inner.simps) simp
        qed
      qed
    qed
  next
    case False
    then show ?thesis
      by (subst cm_inner.simps, subst (2) cm_inner.simps) simp
  qed
qed

lemma snapshot_moment_index: "snapshot_moment x w old i = Some v \<Longrightarrow> unat i < length old"
  by (auto simp: snapshot_moment_def rd_def Let_def split: bind_splits if_splits)


lemma snapshot_moments_step:
  "1 < i \<Longrightarrow> snapshot_moment x w old i = Some v \<Longrightarrow> unat i < length cur \<Longrightarrow>
   snapshot_moments x w old i \<bind> commit cur
     = snapshot_moments x w old (i - 1) \<bind> commit (cur[unat i := v])"
  by (subst snapshot_moments.simps) (cases "snapshot_moments x w old (i - 1)"; simp)

lemma snapshot_moments_None:
  "1 < i \<Longrightarrow> snapshot_moment x w old i = None \<Longrightarrow> snapshot_moments x w old i \<bind> f = None"
  by (subst snapshot_moments.simps) simp

lemma cm_outer_snapshot:
  "0 < length old \<Longrightarrow> length cur = length old \<Longrightarrow>
   (\<forall>j. j \<le> unat i \<longrightarrow> j < length old \<longrightarrow> cur ! j = old ! j) \<Longrightarrow> sw = old ! 0 + w \<Longrightarrow>
   cm_outer x w sw cur i = snapshot_moments x w old i \<bind> commit cur"
proof (induction x w sw cur i rule: cm_outer.induct)
  case (1 x w sw cur i)
  note len = "1.prems"(1,2) and agree = "1.prems"(3) and sw = "1.prems"(4)
  show ?case
  proof (cases "1 < i")
    case True
    then have i1: "1 < unat i"
      by (rule word_gt1_unat_gt1)
    have inner: "cm_inner x w sw cur i (i - 2) (Finite 0)
        = cm_inner x w sw old i (i - 2) (Finite 0)"
      using len(2) agree word_two_less [OF True] True by (intro cm_inner_agree) simp_all
    have ri: "rd cur (unat i) = rd old (unat i)"
      using len(2) agree by (intro rd_agree) simp_all
    have r0: "rd cur 0 = Some (old ! 0)" "rd old 0 = Some (old ! 0)"
      using len agree by (simp_all add: rd_def)
    have r1: "rd cur 1 = rd old 1"
      using len(2) agree i1 by (intro rd_agree) simp_all
    show ?thesis
    proof (cases "snapshot_moment x w old i")
      case None
      then have "cm_inner x w sw old i (i - 2) (Finite 0) = None \<or> rd old (unat i) = None
          \<or> rd old 1 = None"
        using r0 sw by (auto simp: snapshot_moment_def Let_def split: bind_splits)
      with True inner ri r0 r1 have "cm_outer x w sw cur i = None"
        by (subst cm_outer.simps) (auto split: bind_splits)
      with snapshot_moments_None [OF True None, of "commit cur"] show ?thesis
        by simp
    next
      case (Some v)
      from Some obtain t bi b1 where t: "cm_inner x w sw old i (i - 2) (Finite 0) = Some t"
          and bi: "rd old (unat i) = Some bi" and b1: "rd old 1 = Some b1"
          and v: "v = bi + t + old ! 0 * incstats_pow (- w * (x - b1) / sw) i
              + w * incstats_pow (old ! 0 * (x - b1) / sw) i"
        using r0 sw by (auto simp: snapshot_moment_def Let_def split: bind_splits)
      from snapshot_moment_index [OF Some] len(2) have ilen: "unat i < length cur"
        by simp
      then have u: "wr cur (unat i) v = Some (cur[unat i := v])"
        by simp
      have pre: "unat (i - 1) < unat i"
        using True by (rule word_pred_unat)
      have "cm_outer x w sw (cur[unat i := v]) (i - 1)
          = snapshot_moments x w old (i - 1) \<bind> commit (cur[unat i := v])"
      proof (rule "1.IH" [OF True])
        show "cm_inner x w sw cur i (i - 2) (Finite 0) = Some t"
          using inner t by simp
        show "rd cur (unat i) = Some bi" "rd cur 0 = Some (old ! 0)" "rd cur 1 = Some b1"
          using ri bi r0 r1 b1 by simp_all
        show "wr cur (unat i) (bi + t + old ! 0 * incstats_pow (- w * (x - b1) / sw) i
            + w * incstats_pow (old ! 0 * (x - b1) / sw) i) = Some (cur[unat i := v])"
          using u v by simp
        show "0 < length old" "sw = old ! 0 + w"
          using len sw by simp_all
        show "length (cur[unat i := v]) = length old"
          using len by simp
        show "\<forall>j. j \<le> unat (i - 1) \<longrightarrow> j < length old \<longrightarrow> cur[unat i := v] ! j = old ! j"
          using agree pre by simp
      qed
      moreover from True inner t ri bi r0 r1 b1 u v
      have "cm_outer x w sw cur i = cm_outer x w sw (cur[unat i := v]) (i - 1)"
        by (subst cm_outer.simps) simp
      ultimately show ?thesis
        using snapshot_moments_step [OF True Some ilen] by simp
    qed
  next
    case False
    then show ?thesis
      by (subst cm_outer.simps, subst snapshot_moments.simps) simp
  qed
qed

lemma snapshot_moments_orders:
  "snapshot_moments x w old i = Some vs \<Longrightarrow> (j, v) \<in> set vs \<Longrightarrow> 1 < unat j"
proof (induction x w old i arbitrary: vs rule: snapshot_moments.induct)
  case (1 x w old i)
  show ?case
  proof (cases "1 < i")
    case True
    with "1.prems"(1) obtain u us where u: "snapshot_moment x w old i = Some u"
        and us: "snapshot_moments x w old (i - 1) = Some us" and vs: "vs = (i, u) # us"
      by (subst (asm) snapshot_moments.simps) (auto split: bind_splits)
    from "1.prems"(2) vs consider "j = i" | "(j, v) \<in> set us"
      by auto
    then show ?thesis
    proof cases
      case 1
      with word_gt1_unat_gt1 [OF True] show ?thesis
        by blast
    next
      case 2
      with "1.IH" [OF True u us] show ?thesis .
    qed
  next
    case False
    with "1.prems" show ?thesis
      by (subst (asm) snapshot_moments.simps) simp
  qed
qed

lemma commit_frame:
  "commit cur vs = Some b \<Longrightarrow>
   length b = length cur \<and> (\<forall>j. (\<forall>(i, v) \<in> set vs. unat i \<noteq> j) \<longrightarrow> b ! j = cur ! j)"
proof (induction vs arbitrary: cur)
  case Nil
  then show ?case by simp
next
  case (Cons iv vs)
  obtain i v where iv: "iv = (i, v)"
    by (cases iv)
  with Cons.prems have i: "unat i < length cur" and rest: "commit (cur[unat i := v]) vs = Some b"
    by (auto simp: wr_def split: bind_splits if_splits)
  from Cons.IH [OF rest] iv show ?case
    by auto
qed

text \<open>
  C3. One call of \<^verbatim>\<open>incstats_central_moment\<close>, which overwrites the buffer in place from
  order \<open>p\<close> down to 2 and then the mean and the weight, returns what the snapshot
  formulation returns, which computes every new value from the buffer as it was before
  the call and commits them at the end. This holds for every input: also where one of
  the two fails (an access outside the buffer), the other fails.
\<close>

theorem central_moment_is_snapshot_update:
  "incstats_central_moment x w buffer p = central_moment_snapshot x w buffer p"
proof (cases "0 < length buffer")
  case True
  have outer: "cm_outer x w (buffer ! 0 + w) buffer p
      = snapshot_moments x w buffer p \<bind> commit buffer"
    using True by (intro cm_outer_snapshot) simp_all
  show ?thesis
  proof (cases "snapshot_moments x w buffer p")
    case None
    with True outer show ?thesis
      by (simp add: incstats_central_moment_def central_moment_snapshot_def Let_def)
  next
    case (Some vs)
    show ?thesis
    proof (cases "commit buffer vs")
      case None
      with True outer Some show ?thesis
        by (simp add: incstats_central_moment_def central_moment_snapshot_def Let_def
            split: bind_splits)
    next
      case b: (Some b)
      have "unat i \<noteq> 1" if "(i, v) \<in> set vs" for i v
        using snapshot_moments_orders [OF Some that] by simp
      then have "\<forall>(i, v) \<in> set vs. unat i \<noteq> 1"
        by blast
      with commit_frame [OF b] have "length b = length buffer" and "b ! 1 = buffer ! 1"
        by blast+
      then have "rd b 1 = rd buffer 1"
        by (simp add: rd_def)
      with True outer Some b show ?thesis
        by (simp add: incstats_central_moment_def central_moment_snapshot_def Let_def)
    qed
  qed
next
  case False
  then show ?thesis
    by (simp add: incstats_central_moment_def central_moment_snapshot_def Let_def
        split: bind_splits)
qed

lemma central_moment_snapshot_example:
  "central_moment_snapshot (Finite 1) (Finite 2)
     [Finite 1, Finite 0, Finite 3, Finite 5, Finite 7] 4
   = Some [Finite 3, Finite (2 / 3), Finite (11 / 3), Finite (- 11 / 9), Finite (17 / 9)]"
  by (simp add: central_moment_snapshot_def snapshot_moments.simps snapshot_moment_def
      cm_inner.simps n_choose_k_def nck_loop.simps of_u64_def word_cmp power_divide)

section \<open>One update on a buffer of real numbers\<close>

lemma mean_step:
  assumes "2 \<le> length rs" and "rs ! 0 + w \<noteq> 0"
  shows "incstats_mean (Finite x) (Finite w) (map Finite rs)
    = Some (map Finite (rs[0 := rs ! 0 + w, 1 := rs ! 1 + w / (rs ! 0 + w) * (x - rs ! 1)]))"
proof -
  from assms(1) have len: "0 < length rs" "1 < length rs"
    by linarith+
  with assms(2) show ?thesis
    by (simp add: incstats_mean_def map_update)
qed

lemma variance_step:
  assumes "3 \<le> length rs" and "rs ! 0 + w \<noteq> 0"
  shows "incstats_variance (Finite x) (Finite w) (map Finite rs)
    = Some (map Finite (rs[0 := rs ! 0 + w,
          2 := rs ! 2 + w * (x - rs ! 1) * (x - (rs ! 1 + w / (rs ! 0 + w) * (x - rs ! 1))),
          1 := rs ! 1 + w / (rs ! 0 + w) * (x - rs ! 1)]))"
proof -
  from assms(1) have len: "0 < length rs" "1 < length rs" "2 < length rs"
    by linarith+
  with assms(2) show ?thesis
    by (simp add: incstats_variance_def Let_def map_update)
qed

lemma map_Finite_eq [simp]: "map Finite xs = map Finite ys \<longleftrightarrow> xs = ys"
  by (simp add: inj_on_def inj_map_eq_map)

lemma skewness_step:
  assumes "4 \<le> length rs" and "rs ! 0 + w \<noteq> 0"
  shows "\<exists>rs'. incstats_skewness (Finite x) (Finite w) (map Finite rs) = Some (map Finite rs')
    \<and> length rs' = length rs \<and> rs' ! 0 = rs ! 0 + w
    \<and> rs' ! 1 = rs ! 1 + w / (rs ! 0 + w) * (x - rs ! 1)"
proof -
  from assms(1) have len: "0 < length rs" "1 < length rs" "2 < length rs" "3 < length rs"
    by linarith+
  with assms(2) show ?thesis
    by (simp add: incstats_skewness_def Let_def map_update [symmetric])
qed

lemma kurtosis_step:
  assumes "5 \<le> length rs" and "rs ! 0 + w \<noteq> 0"
  shows "\<exists>rs'. incstats_kurtosis (Finite x) (Finite w) (map Finite rs) = Some (map Finite rs')
    \<and> length rs' = length rs \<and> rs' ! 0 = rs ! 0 + w
    \<and> rs' ! 1 = rs ! 1 + w / (rs ! 0 + w) * (x - rs ! 1)"
proof -
  from assms(1) have len: "0 < length rs" "1 < length rs" "2 < length rs" "3 < length rs"
      "4 < length rs"
    by linarith+
  with assms(2) show ?thesis
    by (simp add: incstats_kurtosis_def Let_def map_update [symmetric])
qed

lemma cm_inner_Finite:
  "buffer = map Finite rs \<Longrightarrow> x = Finite x' \<Longrightarrow> w = Finite w' \<Longrightarrow> sw = Finite s \<Longrightarrow>
   1 < length rs \<Longrightarrow> unat i < length rs \<Longrightarrow> k < i \<Longrightarrow> s \<noteq> 0 \<Longrightarrow>
   \<exists>t'. cm_inner x w sw buffer i k (Finite t) = Some (Finite t')"
proof (induction x w sw buffer i k "Finite t" arbitrary: t rule: cm_inner.induct)
  case (1 x w sw buffer i k)
  note eqs = "1.prems"(1-4)
  show ?case
  proof (cases "0 < k")
    case True
    from \<open>k < i\<close> obtain c where c: "n_choose_k i k = Some c"
      using n_choose_k_Some [of k i] word_less_not_max by blast
    from \<open>k < i\<close> \<open>unat i < length rs\<close> have ik: "unat (i - k) < length rs"
      using word_sub_index [of k i] by simp
    from True \<open>k < i\<close> have k1: "k - 1 < i"
      by (rule word_pred_less)
    have r: "rd buffer (unat (i - k)) = Some (Finite (rs ! unat (i - k)))"
        "rd buffer 1 = Some (Finite (rs ! 1))"
      using eqs ik "1.prems"(5) by simp_all
    obtain u where u: "Finite t + of_u64 c * Finite (rs ! unat (i - k))
        * incstats_pow (- w * (x - Finite (rs ! 1)) / sw) k = Finite u"
      using eqs \<open>s \<noteq> 0\<close> by (simp add: of_u64_def)
    from "1.hyps" [OF True c r u eqs "1.prems"(5,6) k1 "1.prems"(8)]
    obtain t' where "cm_inner x w sw buffer i (k - 1) (Finite u) = Some (Finite t')"
      by blast
    with True c r u show ?thesis
      by (subst cm_inner.simps) simp
  next
    case False
    then show ?thesis
      by (subst cm_inner.simps) simp
  qed
qed

lemma cm_outer_Finite:
  "buffer = map Finite rs \<Longrightarrow> x = Finite x' \<Longrightarrow> w = Finite w' \<Longrightarrow> sw = Finite s \<Longrightarrow>
   1 < length rs \<Longrightarrow> unat i < length rs \<Longrightarrow> s \<noteq> 0 \<Longrightarrow>
   \<exists>rs'. cm_outer x w sw buffer i = Some (map Finite rs') \<and> length rs' = length rs
     \<and> rs' ! 0 = rs ! 0 \<and> rs' ! 1 = rs ! 1"
proof (induction x w sw buffer i arbitrary: rs rule: cm_outer.induct)
  case (1 x w sw buffer i)
  note eqs = "1.prems"(1-4)
  show ?case
  proof (cases "1 < i")
    case True
    from "1.prems" have z: "0 < length rs"
      by linarith
    from True have i1: "1 < unat i"
      by (simp add: word_less_nat_alt)
    obtain t where t: "cm_inner x w sw buffer i (i - 2) (Finite 0) = Some (Finite t)"
      using cm_inner_Finite [OF eqs "1.prems"(5,6) word_two_less [OF True] "1.prems"(7)]
      by blast
    have r: "rd buffer (unat i) = Some (Finite (rs ! unat i))"
        "rd buffer 0 = Some (Finite (rs ! 0))" "rd buffer 1 = Some (Finite (rs ! 1))"
      using eqs "1.prems"(5,6) z by simp_all
    obtain v where v: "Finite (rs ! unat i) + Finite t
        + Finite (rs ! 0) * incstats_pow (- w * (x - Finite (rs ! 1)) / sw) i
        + w * incstats_pow (Finite (rs ! 0) * (x - Finite (rs ! 1)) / sw) i = Finite v"
      using eqs \<open>s \<noteq> 0\<close> by simp
    let ?rs = "rs[unat i := v]"
    have u: "wr buffer (unat i) (Finite (rs ! unat i) + Finite t
        + Finite (rs ! 0) * incstats_pow (- w * (x - Finite (rs ! 1)) / sw) i
        + w * incstats_pow (Finite (rs ! 0) * (x - Finite (rs ! 1)) / sw) i)
        = Some (map Finite ?rs)"
      unfolding v using eqs "1.prems"(6) by (simp add: map_update)
    from True "1.prems" have "unat (i - 1) < length ?rs"
      using word_pred_unat [of i] by simp
    with "1.IH" [OF True t r u refl eqs(2-4) _ _ "1.prems"(7)] "1.prems"(5)
    obtain rs' where "cm_outer x w sw (map Finite ?rs) (i - 1) = Some (map Finite rs')"
        and "length rs' = length ?rs" and "rs' ! 0 = ?rs ! 0" and "rs' ! 1 = ?rs ! 1"
      by auto
    with True t r u i1 show ?thesis
      by (subst cm_outer.simps) simp
  next
    case False
    with eqs show ?thesis
      by (subst cm_outer.simps) simp
  qed
qed

lemma central_moment_step:
  assumes "max 2 (unat p + 1) \<le> length rs" and "rs ! 0 + w \<noteq> 0"
  shows "\<exists>rs'. incstats_central_moment (Finite x) (Finite w) (map Finite rs) p
      = Some (map Finite rs')
    \<and> length rs' = length rs \<and> rs' ! 0 = rs ! 0 + w
    \<and> rs' ! 1 = rs ! 1 + w / (rs ! 0 + w) * (x - rs ! 1)"
proof -
  from assms(1) have "2 \<le> length rs \<and> unat p + 1 \<le> length rs"
    by (simp only: max.bounded_iff)
  then have len: "0 < length rs" "1 < length rs" "unat p < length rs"
    by linarith+
  obtain rs' where o: "cm_outer (Finite x) (Finite w) (Finite (rs ! 0 + w)) (map Finite rs) p
        = Some (map Finite rs')"
      and l: "length rs' = length rs" and s: "rs' ! 0 = rs ! 0" "rs' ! 1 = rs ! 1"
    using cm_outer_Finite [OF refl refl refl refl len(2,3) assms(2)] by blast
  with len assms(2) show ?thesis
    by (simp add: incstats_central_moment_def Let_def map_update [symmetric])
qed


lemma mean_step_weight_mean:
  assumes "2 \<le> length rs" and "rs ! 0 + w \<noteq> 0"
  shows "\<exists>rs'. incstats_mean (Finite x) (Finite w) (map Finite rs) = Some (map Finite rs')
    \<and> length rs' = length rs \<and> rs' ! 0 = rs ! 0 + w
    \<and> rs' ! 1 = rs ! 1 + w / (rs ! 0 + w) * (x - rs ! 1)"
proof -
  from assms(1) have len: "0 < length rs" "1 < length rs"
    by linarith+
  with mean_step [OF assms, of x] show ?thesis
    by simp
qed

lemma variance_step_weight_mean:
  assumes "3 \<le> length rs" and "rs ! 0 + w \<noteq> 0"
  shows "\<exists>rs'. incstats_variance (Finite x) (Finite w) (map Finite rs) = Some (map Finite rs')
    \<and> length rs' = length rs \<and> rs' ! 0 = rs ! 0 + w
    \<and> rs' ! 1 = rs ! 1 + w / (rs ! 0 + w) * (x - rs ! 1)"
proof -
  from assms(1) have len: "0 < length rs" "1 < length rs" "2 < length rs"
    by linarith+
  with variance_step [OF assms, of x] show ?thesis
    by simp
qed

section \<open>Total weight and running mean of a stream\<close>

lemma total_weight_simps [simp]:
  "total_weight [] = 0" "total_weight ((x, w) # rest) = w + total_weight rest"
  by (simp_all add: total_weight_def)

lemma weighted_sum_simps [simp]:
  "weighted_sum [] = 0" "weighted_sum ((x, w) # rest) = w * x + weighted_sum rest"
  by (simp_all add: weighted_sum_def)

lemma total_weight_pos:
  "\<forall>(x, w) \<in> set stream. 0 < w \<Longrightarrow> stream \<noteq> [] \<Longrightarrow> 0 < total_weight stream"
proof (induction stream)
  case Nil
  then show ?case by simp
next
  case (Cons a stream)
  obtain x w where a: "a = (x, w)"
    by (cases a)
  show ?case
  proof (cases "stream = []")
    case True
    with Cons.prems a show ?thesis by simp
  next
    case False
    with Cons a have "0 < total_weight stream" and "0 < w"
      by simp_all
    with a show ?thesis by simp
  qed
qed

lemma total_weight_nonneg: "\<forall>(x, w) \<in> set stream. 0 < w \<Longrightarrow> 0 \<le> total_weight stream"
  using total_weight_pos [of stream] by (cases "stream = []") (simp_all add: less_imp_le)

lemma mean_update_identity:
  fixes m W w x :: real
  assumes "W + w \<noteq> 0"
  shows "(m + w / (W + w) * (x - m)) * (W + w) = m * W + w * x"
  using assms by (simp add: field_simps)

lemma run_weight_mean:
  assumes step: "\<And>x w rs. n \<le> length rs \<Longrightarrow> rs ! 0 + w \<noteq> 0 \<Longrightarrow>
      \<exists>rs'. update (Finite x) (Finite w) (map Finite rs) = Some (map Finite rs')
        \<and> length rs' = length rs \<and> rs' ! 0 = rs ! 0 + w
        \<and> rs' ! 1 = rs ! 1 + w / (rs ! 0 + w) * (x - rs ! 1)"
    and pos: "\<forall>(x, w) \<in> set stream. 0 < w"
    and len: "n \<le> length rs" and nonneg: "0 \<le> rs ! 0"
  shows "\<exists>rs'. run update (map Finite rs) stream = Some (map Finite rs')
    \<and> length rs' = length rs \<and> rs' ! 0 = rs ! 0 + total_weight stream
    \<and> rs' ! 1 * rs' ! 0 = rs ! 1 * rs ! 0 + weighted_sum stream"
  using pos len nonneg
proof (induction stream arbitrary: rs)
  case Nil
  then show ?case by simp
next
  case (Cons a stream)
  obtain x w where a: "a = (x, w)"
    by (cases a)
  with Cons.prems have w: "0 < w" and rest: "\<forall>(x, w) \<in> set stream. 0 < w"
    by simp_all
  with Cons.prems have nz: "rs ! 0 + w \<noteq> 0"
    by simp
  from step [OF Cons.prems(2) nz, of x]
  obtain rs1 where u: "update (Finite x) (Finite w) (map Finite rs) = Some (map Finite rs1)"
      and l1: "length rs1 = length rs" and w1: "rs1 ! 0 = rs ! 0 + w"
      and m1: "rs1 ! 1 = rs ! 1 + w / (rs ! 0 + w) * (x - rs ! 1)"
    by blast
  from Cons.prems w w1 l1 have "n \<le> length rs1" and "0 \<le> rs1 ! 0"
    by simp_all
  from Cons.IH [OF rest this]
  obtain rs' where r: "run update (map Finite rs1) stream = Some (map Finite rs')"
      and l: "length rs' = length rs1" and w': "rs' ! 0 = rs1 ! 0 + total_weight stream"
      and m': "rs' ! 1 * rs' ! 0 = rs1 ! 1 * rs1 ! 0 + weighted_sum stream"
    by blast
  have "rs1 ! 1 * rs1 ! 0 = rs ! 1 * rs ! 0 + w * x"
    unfolding w1 m1 using nz by (rule mean_update_identity)
  with a u r l l1 w' w1 m' show ?case
    by simp
qed

lemma run_from_zeros:
  assumes step: "\<And>x w rs. n \<le> length rs \<Longrightarrow> rs ! 0 + w \<noteq> 0 \<Longrightarrow>
      \<exists>rs'. update (Finite x) (Finite w) (map Finite rs) = Some (map Finite rs')
        \<and> length rs' = length rs \<and> rs' ! 0 = rs ! 0 + w
        \<and> rs' ! 1 = rs ! 1 + w / (rs ! 0 + w) * (x - rs ! 1)"
    and pos: "\<forall>(x, w) \<in> set stream. 0 < w"
    and len: "n \<le> k" "2 \<le> k"
  shows "\<exists>b. run update (zeros k) stream = Some b
    \<and> b ! 0 = Finite (total_weight stream)
    \<and> (stream \<noteq> [] \<longrightarrow> b ! 1 = Finite (weighted_mean stream))"
proof -
  have z: "zeros k = map Finite (replicate k 0)"
    by (simp add: zeros_def)
  from len have "n \<le> length (replicate k (0 :: real))" and "0 \<le> replicate k (0 :: real) ! 0"
    by simp_all
  from run_weight_mean [of n update, OF step pos this]
  obtain rs' where r: "run update (zeros k) stream = Some (map Finite rs')"
      and l: "length rs' = k" and w: "rs' ! 0 = total_weight stream"
      and m: "rs' ! 1 * rs' ! 0 = weighted_sum stream"
    using len unfolding z by auto
  have "rs' ! 1 = weighted_mean stream" if "stream \<noteq> []"
  proof -
    from total_weight_pos [OF pos that] have "total_weight stream \<noteq> 0"
      by simp
    with m w show ?thesis
      by (simp add: weighted_mean_def field_simps)
  qed
  with r l w len show ?thesis
    by simp
qed

text \<open>
  C2. For every finite stream of samples with strictly positive weights, fed to a
  zero-initialized buffer by any update of the family (\<^verbatim>\<open>incstats_mean\<close>,
  \<^verbatim>\<open>incstats_variance\<close>, \<^verbatim>\<open>incstats_skewness\<close>, \<^verbatim>\<open>incstats_kurtosis\<close>, and
  \<^verbatim>\<open>incstats_central_moment\<close> of every order \<open>p\<close>; the buffer long enough for the
  function), the run returns a buffer whose slot 0 is the sum of the weights and, the
  stream not being empty, whose slot 1 is the weighted mean \<open>\<Sum> w x / \<Sum> w\<close>.
\<close>

theorem running_weight_and_mean:
  assumes "\<forall>(x, w) \<in> set stream. 0 < w"
  shows "(2 \<le> n \<longrightarrow> (\<exists>b. run incstats_mean (zeros n) stream = Some b
            \<and> b ! 0 = Finite (total_weight stream)
            \<and> (stream \<noteq> [] \<longrightarrow> b ! 1 = Finite (weighted_mean stream))))
    \<and> (3 \<le> n \<longrightarrow> (\<exists>b. run incstats_variance (zeros n) stream = Some b
            \<and> b ! 0 = Finite (total_weight stream)
            \<and> (stream \<noteq> [] \<longrightarrow> b ! 1 = Finite (weighted_mean stream))))
    \<and> (4 \<le> n \<longrightarrow> (\<exists>b. run incstats_skewness (zeros n) stream = Some b
            \<and> b ! 0 = Finite (total_weight stream)
            \<and> (stream \<noteq> [] \<longrightarrow> b ! 1 = Finite (weighted_mean stream))))
    \<and> (5 \<le> n \<longrightarrow> (\<exists>b. run incstats_kurtosis (zeros n) stream = Some b
            \<and> b ! 0 = Finite (total_weight stream)
            \<and> (stream \<noteq> [] \<longrightarrow> b ! 1 = Finite (weighted_mean stream))))
    \<and> (max 2 (unat p + 1) \<le> n \<longrightarrow>
          (\<exists>b. run (\<lambda>x w buffer. incstats_central_moment x w buffer p) (zeros n) stream = Some b
            \<and> b ! 0 = Finite (total_weight stream)
            \<and> (stream \<noteq> [] \<longrightarrow> b ! 1 = Finite (weighted_mean stream))))"
proof (intro conjI impI)
  assume n: "2 \<le> n"
  show "\<exists>b. run incstats_mean (zeros n) stream = Some b
      \<and> b ! 0 = Finite (total_weight stream)
      \<and> (stream \<noteq> [] \<longrightarrow> b ! 1 = Finite (weighted_mean stream))"
    by (rule run_from_zeros [of 2, OF _ assms n n]) (rule mean_step_weight_mean)
next
  assume n: "3 \<le> n"
  then have n2: "2 \<le> n"
    by simp
  show "\<exists>b. run incstats_variance (zeros n) stream = Some b
      \<and> b ! 0 = Finite (total_weight stream)
      \<and> (stream \<noteq> [] \<longrightarrow> b ! 1 = Finite (weighted_mean stream))"
    by (rule run_from_zeros [of 3, OF _ assms n n2]) (rule variance_step_weight_mean)
next
  assume n: "4 \<le> n"
  then have n2: "2 \<le> n"
    by simp
  show "\<exists>b. run incstats_skewness (zeros n) stream = Some b
      \<and> b ! 0 = Finite (total_weight stream)
      \<and> (stream \<noteq> [] \<longrightarrow> b ! 1 = Finite (weighted_mean stream))"
    by (rule run_from_zeros [of 4, OF _ assms n n2]) (rule skewness_step)
next
  assume n: "5 \<le> n"
  then have n2: "2 \<le> n"
    by simp
  show "\<exists>b. run incstats_kurtosis (zeros n) stream = Some b
      \<and> b ! 0 = Finite (total_weight stream)
      \<and> (stream \<noteq> [] \<longrightarrow> b ! 1 = Finite (weighted_mean stream))"
    by (rule run_from_zeros [of 5, OF _ assms n n2]) (rule kurtosis_step)
next
  assume n: "max 2 (unat p + 1) \<le> n"
  then have n2: "2 \<le> n"
    by simp
  show "\<exists>b. run (\<lambda>x w buffer. incstats_central_moment x w buffer p) (zeros n) stream = Some b
      \<and> b ! 0 = Finite (total_weight stream)
      \<and> (stream \<noteq> [] \<longrightarrow> b ! 1 = Finite (weighted_mean stream))"
    by (rule run_from_zeros [of "max 2 (unat p + 1)", OF _ assms n n2])
      (rule central_moment_step)
qed

theorem running_weight_and_mean_witness:
  "(0 :: real) < 1 \<and> (0 :: real) < 3
   \<and> (\<exists>b. run incstats_mean (zeros 2) [(1, 1), (4, 3)] = Some b
        \<and> b ! 0 = Finite 4 \<and> b ! 1 = Finite (13 / 4))
   \<and> (\<exists>b. run incstats_variance (zeros 3) [(1, 1), (4, 3)] = Some b
        \<and> b ! 0 = Finite 4 \<and> b ! 1 = Finite (13 / 4))
   \<and> (\<exists>b. run incstats_skewness (zeros 4) [(1, 1), (4, 3)] = Some b
        \<and> b ! 0 = Finite 4 \<and> b ! 1 = Finite (13 / 4))
   \<and> (\<exists>b. run incstats_kurtosis (zeros 5) [(1, 1), (4, 3)] = Some b
        \<and> b ! 0 = Finite 4 \<and> b ! 1 = Finite (13 / 4))
   \<and> (\<exists>b. run (\<lambda>x w buffer. incstats_central_moment x w buffer 6) (zeros 7)
            [(1, 1), (4, 3)] = Some b
        \<and> b ! 0 = Finite 4 \<and> b ! 1 = Finite (13 / 4))"
  using running_weight_and_mean [of "[(1, 1), (4, 3)]" 2 0]
    running_weight_and_mean [of "[(1, 1), (4, 3)]" 3 0]
    running_weight_and_mean [of "[(1, 1), (4, 3)]" 4 0]
    running_weight_and_mean [of "[(1, 1), (4, 3)]" 5 0]
    running_weight_and_mean [of "[(1, 1), (4, 3)]" 7 6]
  by (simp add: weighted_mean_def)

section \<open>The running variance\<close>

lemma welford_ring_identity:
  fixes m m' W w x Q :: real
  shows "((Q + w * x\<^sup>2) - m' * (m * W + w * x)) - ((Q - m * (m * W)) + w * (x - m) * (x - m'))
    = m * ((m * W + w * x) - m' * (W + w))"
  by (simp add: algebra_simps power2_eq_square)

lemma welford_identity:
  fixes m W w x Q :: real
  assumes "W + w \<noteq> 0"
  shows "(Q - m * (m * W)) + w * (x - m) * (x - (m + w / (W + w) * (x - m)))
    = (Q + w * x\<^sup>2) - (m + w / (W + w) * (x - m)) * (m * W + w * x)"
proof -
  define m' where "m' = m + w / (W + w) * (x - m)"
  have "m' * (W + w) = m * W + w * x"
    unfolding m'_def using assms by (rule mean_update_identity)
  with welford_ring_identity [of Q w x m' m W]
  have "(Q - m * (m * W)) + w * (x - m) * (x - m') = (Q + w * x\<^sup>2) - m' * (m * W + w * x)"
    by simp
  then show ?thesis
    unfolding m'_def .
qed

lemma weighted_squares_simps [simp]:
  "weighted_squares [] = 0" "weighted_squares ((x, w) # rest) = w * x\<^sup>2 + weighted_squares rest"
  by (simp_all add: weighted_squares_def)

lemma centered_squares:
  "(\<Sum>(x, w) \<leftarrow> stream. w * (x - c)\<^sup>2)
    = weighted_squares stream - 2 * c * weighted_sum stream + c\<^sup>2 * total_weight stream"
proof (induction stream)
  case Nil
  then show ?case by simp
next
  case (Cons a stream)
  obtain x w where "a = (x, w)"
    by (cases a)
  with Cons show ?case
    by (simp add: algebra_simps power2_eq_square)
qed

lemma run_variance_invariant:
  assumes "\<forall>(x, w) \<in> set stream. 0 < w" and "3 \<le> length rs" and "0 \<le> rs ! 0"
    and "rs ! 1 * rs ! 0 = S" and "rs ! 2 = Q - rs ! 1 * S"
  shows "\<exists>rs'. run incstats_variance (map Finite rs) stream = Some (map Finite rs')
    \<and> length rs' = length rs \<and> rs' ! 0 = rs ! 0 + total_weight stream
    \<and> rs' ! 1 * rs' ! 0 = S + weighted_sum stream
    \<and> rs' ! 2 = (Q + weighted_squares stream) - rs' ! 1 * (S + weighted_sum stream)"
  using assms
proof (induction stream arbitrary: rs S Q)
  case Nil
  then show ?case by simp
next
  case (Cons a stream)
  obtain x w where a: "a = (x, w)"
    by (cases a)
  with Cons.prems have w: "0 < w" and rest: "\<forall>(x, w) \<in> set stream. 0 < w"
    by simp_all
  with Cons.prems have nz: "rs ! 0 + w \<noteq> 0"
    by simp
  from Cons.prems(2) have len: "0 < length rs" "1 < length rs" "2 < length rs"
    by linarith+
  let ?m = "rs ! 1 + w / (rs ! 0 + w) * (x - rs ! 1)"
  let ?rs = "rs[0 := rs ! 0 + w, 2 := rs ! 2 + w * (x - rs ! 1) * (x - ?m), 1 := ?m]"
  have u: "incstats_variance (Finite x) (Finite w) (map Finite rs) = Some (map Finite ?rs)"
    using Cons.prems(2) nz by (rule variance_step)
  have l1: "3 \<le> length ?rs" and w1: "0 \<le> ?rs ! 0"
    using Cons.prems(2,3) len w by simp_all
  have m1: "?rs ! 1 * ?rs ! 0 = S + w * x"
    using len mean_update_identity [OF nz, of "rs ! 1" x] Cons.prems(4) by simp
  have q1: "?rs ! 2 = (Q + w * x\<^sup>2) - ?rs ! 1 * (S + w * x)"
    using len welford_identity [OF nz, of Q "rs ! 1" x] Cons.prems(4,5) by simp
  from Cons.IH [OF rest l1 w1 m1 q1]
  obtain rs' where r: "run incstats_variance (map Finite ?rs) stream = Some (map Finite rs')"
      and l: "length rs' = length ?rs" and w': "rs' ! 0 = ?rs ! 0 + total_weight stream"
      and m': "rs' ! 1 * rs' ! 0 = S + w * x + weighted_sum stream"
      and q': "rs' ! 2 = (Q + w * x\<^sup>2 + weighted_squares stream)
          - rs' ! 1 * (S + w * x + weighted_sum stream)"
    by blast
  from a u r l w' m' q' len show ?case
    by (simp add: add.assoc)
qed


lemma variance_finalize_result:
  assumes "2 \<le> length results" and "3 \<le> length buffer"
  shows "incstats_variance_finalize results buffer
    = Some (results[0 := buffer ! 1, 1 := buffer ! 2 / buffer ! 0], buffer)"
proof -
  from assms have "0 < length results" "1 < length results"
      "0 < length buffer" "1 < length buffer" "2 < length buffer"
    by linarith+
  then show ?thesis
    by (simp add: incstats_variance_finalize_def)
qed

text \<open>
  C6. For every non-empty finite stream of samples with strictly positive weights fed
  through \<^verbatim>\<open>incstats_variance\<close> on a zero-initialized buffer of length 3,
  \<^verbatim>\<open>incstats_variance_finalize\<close> writes \<^verbatim>\<open>results[1] = buffer[2] / buffer[0]\<close>, and this is the
  population weighted variance \<open>\<Sum> w (x - mean)\<^sup>2 / \<Sum> w\<close> with \<open>mean = \<Sum> w x / \<Sum> w\<close>:
  the divisor is the total weight, without a sample correction.
\<close>

theorem running_variance_is_population_variance:
  assumes "\<forall>(x, w) \<in> set stream. 0 < w" and "stream \<noteq> []" and "2 \<le> length results"
  shows "\<exists>b r. run incstats_variance (zeros 3) stream = Some b
    \<and> incstats_variance_finalize results b = Some (r, b)
    \<and> r ! 1 = b ! 2 / b ! 0
    \<and> r ! 1 = Finite (population_variance stream)"
proof -
  have z: "zeros 3 = map Finite (replicate 3 0)"
    by (simp add: zeros_def)
  have "3 \<le> length (replicate 3 (0 :: real))" "0 \<le> replicate 3 (0 :: real) ! 0"
      "replicate 3 (0 :: real) ! 1 * replicate 3 (0 :: real) ! 0 = 0"
      "replicate 3 (0 :: real) ! 2 = 0 - replicate 3 (0 :: real) ! 1 * 0"
    by simp_all
  from run_variance_invariant [OF assms(1) this]
  obtain rs where r: "run incstats_variance (zeros 3) stream = Some (map Finite rs)"
      and l: "length rs = 3" and w: "rs ! 0 = total_weight stream"
      and m: "rs ! 1 * rs ! 0 = weighted_sum stream"
      and q: "rs ! 2 = weighted_squares stream - rs ! 1 * weighted_sum stream"
    unfolding z by auto
  from total_weight_pos [OF assms(1,2)] have pos: "0 < total_weight stream" .
  with m w have mean: "rs ! 1 = weighted_mean stream"
    by (simp add: weighted_mean_def field_simps)
  have "(\<Sum>(x, w) \<leftarrow> stream. w * (x - weighted_mean stream)\<^sup>2)
      = weighted_squares stream - 2 * rs ! 1 * weighted_sum stream
        + rs ! 1 * (rs ! 1 * rs ! 0)"
    unfolding mean [symmetric] w by (subst centered_squares) (simp add: power2_eq_square)
  also have "\<dots> = rs ! 2"
    unfolding m q by simp
  finally have var: "population_variance stream = rs ! 2 / rs ! 0"
    by (simp add: population_variance_def w)
  let ?b = "map Finite rs"
  let ?r = "results[0 := ?b ! 1, 1 := ?b ! 2 / ?b ! 0]"
  from l assms(3) have fin: "incstats_variance_finalize results ?b = Some (?r, ?b)"
    by (intro variance_finalize_result) simp_all
  from assms(3) have "1 < length results"
    by linarith
  then have "?r ! 1 = ?b ! 2 / ?b ! 0"
    by simp
  moreover from l pos w have "?b ! 2 / ?b ! 0 = Finite (rs ! 2 / rs ! 0)"
    by simp
  ultimately show ?thesis
    using r fin var by auto
qed

theorem running_variance_is_population_variance_witness:
  "(0 :: real) < 1 \<and> (0 :: real) < 3 \<and> [(1, 1), (5, 3 :: real)] \<noteq> []
   \<and> 2 \<le> length [Finite 0, Finite 0]
   \<and> population_variance [(1, 1), (5, 3)] = 3
   \<and> (\<exists>b r. run incstats_variance (zeros 3) [(1, 1), (5, 3)] = Some b
        \<and> incstats_variance_finalize [Finite 0, Finite 0] b = Some (r, b)
        \<and> r ! 1 = b ! 2 / b ! 0 \<and> r ! 1 = Finite 3)"
proof -
  have v: "population_variance [(1, 1), (5, 3)] = 3"
    by (simp add: population_variance_def weighted_mean_def power2_eq_square)
  from running_variance_is_population_variance [of "[(1, 1), (5, 3)]" "[Finite 0, Finite 0]"]
  have "\<exists>b r. run incstats_variance (zeros 3) [(1, 1), (5, 3)] = Some b
        \<and> incstats_variance_finalize [Finite 0, Finite 0] b = Some (r, b)
        \<and> r ! 1 = b ! 2 / b ! 0 \<and> r ! 1 = Finite 3"
    unfolding v by simp
  with v show ?thesis
    by simp
qed

section \<open>The generalized update against the specialized ones\<close>

subsection \<open>One update\<close>

lemma double_add_zero [simp]: "Finite 0 + a = a" "a + Finite 0 = a" for a :: double
  by (cases a; simp)+

lemma double_add_commute: "a + b = b + a" for a b :: double
  by (cases a; cases b; simp)

lemma double_add_assoc: "a + b + c = a + (b + c)" for a b c :: double
  by (cases a; cases b; cases c; simp)

lemma double_add_left_commute: "a + (b + c) = b + (a + c)" for a b c :: double
  by (cases a; cases b; cases c; simp)

lemmas double_add_ac = double_add_assoc double_add_commute double_add_left_commute

lemma incstats_pow_1 [simp]: "incstats_pow x 1 = x"
  by (simp add: incstats_pow_def pow_loop.simps)

lemma incstats_pow_2: "incstats_pow x 2 = x * x"
  by (simp add: incstats_pow_def pow_loop.simps word_cmp)

lemma incstats_pow_3: "incstats_pow x 3 = x * x * x"
  by (simp add: incstats_pow_def pow_loop.simps word_cmp)

lemma incstats_pow_4: "incstats_pow x 4 = x * x * x * x"
  by (simp add: incstats_pow_def pow_loop.simps word_cmp)

lemma order2_real_identity:
  fixes s w d :: real
  assumes "s \<noteq> 0"
  shows "(s - w) * (- w * d / s)\<^sup>2 + w * ((s - w) * d / s)\<^sup>2 = w * d * (d - w / s * d)"
proof -
  have "(s - w) * (- w * d / s)\<^sup>2 + w * ((s - w) * d / s)\<^sup>2
      = ((s - w) * (w * d)\<^sup>2 + w * ((s - w) * d)\<^sup>2) / s\<^sup>2"
    by (simp add: power_divide add_divide_distrib)
  also have "(s - w) * (w * d)\<^sup>2 + w * ((s - w) * d)\<^sup>2 = (w * d * (d * s - w * d)) * s"
    by (simp add: algebra_simps power2_eq_square)
  also have "(w * d * (d * s - w * d)) * s / s\<^sup>2 = w * d * ((d * s - w * d) / s)"
    using assms by (simp add: power2_eq_square)
  also have "(d * s - w * d) / s = d - w / s * d"
    using assms by (simp add: diff_divide_distrib)
  finally show ?thesis .
qed


lemma order2_agree:
  "b2 + b0 * incstats_pow (- w * (x - b1) / (b0 + w)) 2
      + w * incstats_pow (b0 * (x - b1) / (b0 + w)) 2
   = b2 + w * (x - b1) * (x - (b1 + w / (b0 + w) * (x - b1)))"
proof (cases "\<exists>x' w' c0 c1 c2. x = Finite x' \<and> w = Finite w' \<and> b0 = Finite c0 \<and> b1 = Finite c1
    \<and> b2 = Finite c2 \<and> c0 + w' \<noteq> 0")
  case True
  then obtain x' w' c0 c1 c2 where e: "x = Finite x'" "w = Finite w'" "b0 = Finite c0"
      "b1 = Finite c1" "b2 = Finite c2" and nz: "c0 + w' \<noteq> 0"
    by blast
  have "c2 + c0 * (- w' * (x' - c1) / (c0 + w'))\<^sup>2 + w' * (c0 * (x' - c1) / (c0 + w'))\<^sup>2
      = c2 + w' * (x' - c1) * (x' - (c1 + w' / (c0 + w') * (x' - c1)))"
    using order2_real_identity [OF nz, of w' "x' - c1"] by simp
  with e nz show ?thesis
    by (simp add: incstats_pow_2 power2_eq_square)
next
  case False
  then show ?thesis
    by (cases x; cases w; cases b0; cases b1; cases b2) (auto simp: incstats_pow_2)
qed

lemma central_moment_2_is_variance:
  assumes "3 \<le> length buffer"
  shows "incstats_central_moment x w buffer 2 = incstats_variance x w buffer"
proof -
  from assms have len: "0 < length buffer" "1 < length buffer" "2 < length buffer"
    by linarith+
  have inner: "cm_inner x w sw buffer 2 0 (Finite 0) = Some (Finite 0)" for sw
    by (simp add: cm_inner.simps)
  have outer: "cm_outer x w sw buffer 2
      = Some (buffer[2 := buffer ! 2 + buffer ! 0 * incstats_pow (- w * (x - buffer ! 1) / sw) 2
          + w * incstats_pow (buffer ! 0 * (x - buffer ! 1) / sw) 2])" for sw
    using len by (simp add: cm_outer.simps inner word_cmp)
  from len show ?thesis
    by (simp add: incstats_central_moment_def incstats_variance_def Let_def outer
        order2_agree list_update_swap)
qed

lemma central_moment_3_is_skewness:
  assumes "4 \<le> length buffer"
  shows "incstats_central_moment x w buffer 3 = incstats_skewness x w buffer"
proof -
  from assms have len: "0 < length buffer" "1 < length buffer" "2 < length buffer"
      "3 < length buffer"
    by linarith+
  have c: "n_choose_k 3 1 = Some 3"
    by (simp add: n_choose_k_def nck_loop.simps word_cmp)
  have inner3: "cm_inner x w sw buffer 3 1 (Finite 0)
      = Some (Finite 3 * buffer ! 2 * (- w * (x - buffer ! 1) / sw))" for sw
    using len by (simp add: cm_inner.simps c of_u64_def word_cmp)
  have inner2: "cm_inner x w sw b 2 0 (Finite 0) = Some (Finite 0)" for sw b
    by (simp add: cm_inner.simps)
  have outer: "cm_outer x w sw buffer 3
      = Some (buffer[3 := buffer ! 3 + Finite 3 * buffer ! 2 * (- w * (x - buffer ! 1) / sw)
            + buffer ! 0 * incstats_pow (- w * (x - buffer ! 1) / sw) 3
            + w * incstats_pow (buffer ! 0 * (x - buffer ! 1) / sw) 3,
          2 := buffer ! 2 + buffer ! 0 * incstats_pow (- w * (x - buffer ! 1) / sw) 2
            + w * incstats_pow (buffer ! 0 * (x - buffer ! 1) / sw) 2])" for sw
    using len by (simp add: cm_outer.simps inner3 inner2 word_cmp)
  from len show ?thesis
    by (simp add: incstats_central_moment_def incstats_skewness_def Let_def outer)
qed

lemma central_moment_4_is_kurtosis:
  assumes "5 \<le> length buffer"
  shows "incstats_central_moment x w buffer 4 = incstats_kurtosis x w buffer"
proof -
  from assms have len: "0 < length buffer" "1 < length buffer" "2 < length buffer"
      "3 < length buffer" "4 < length buffer"
    by linarith+
  have c: "n_choose_k 3 1 = Some 3" "n_choose_k 4 1 = Some 4" "n_choose_k 4 2 = Some 6"
    by (simp_all add: n_choose_k_def nck_loop.simps word_cmp)
  have inner4: "cm_inner x w sw buffer 4 2 (Finite 0)
      = Some (Finite 6 * buffer ! 2 * incstats_pow (- w * (x - buffer ! 1) / sw) 2
          + Finite 4 * buffer ! 3 * (- w * (x - buffer ! 1) / sw))" for sw
    using len by (simp add: cm_inner.simps c of_u64_def word_cmp)
  have inner3: "cm_inner x w sw b 3 1 (Finite 0)
      = Some (Finite 3 * b ! 2 * (- w * (x - b ! 1) / sw))" if "3 < length b" for sw b
    using that by (simp add: cm_inner.simps c of_u64_def word_cmp)
  have inner2: "cm_inner x w sw b 2 0 (Finite 0) = Some (Finite 0)" for sw b
    by (simp add: cm_inner.simps)
  have outer: "cm_outer x w sw buffer 4
      = Some (buffer[4 := buffer ! 4
            + (Finite 6 * buffer ! 2 * incstats_pow (- w * (x - buffer ! 1) / sw) 2
               + Finite 4 * buffer ! 3 * (- w * (x - buffer ! 1) / sw))
            + buffer ! 0 * incstats_pow (- w * (x - buffer ! 1) / sw) 4
            + w * incstats_pow (buffer ! 0 * (x - buffer ! 1) / sw) 4,
          3 := buffer ! 3 + Finite 3 * buffer ! 2 * (- w * (x - buffer ! 1) / sw)
            + buffer ! 0 * incstats_pow (- w * (x - buffer ! 1) / sw) 3
            + w * incstats_pow (buffer ! 0 * (x - buffer ! 1) / sw) 3,
          2 := buffer ! 2 + buffer ! 0 * incstats_pow (- w * (x - buffer ! 1) / sw) 2
            + w * incstats_pow (buffer ! 0 * (x - buffer ! 1) / sw) 2])" for sw
    using len by (simp add: cm_outer.simps inner4 inner3 inner2 word_cmp)
  have order4: "b4 + (t2 + t3) + p + q = b4 + t3 + t2 + p + q" for b4 t2 t3 p q :: double
    by (simp add: double_add_ac)
  from len show ?thesis
    by (simp add: incstats_central_moment_def incstats_kurtosis_def Let_def outer order4)
qed

subsection \<open>A stream of updates\<close>

lemma run_cong:
  assumes eq: "\<And>x w b. n \<le> length b \<Longrightarrow> f x w b = g x w b"
    and keep: "\<And>x w b b'. g x w b = Some b' \<Longrightarrow> length b' = length b"
    and len: "n \<le> length buffer"
  shows "run f buffer stream = run g buffer stream"
  using len
proof (induction stream arbitrary: buffer)
  case Nil
  then show ?case by simp
next
  case (Cons a stream)
  obtain x w where a: "a = (x, w)"
    by (cases a)
  show ?case
  proof (cases "g (Finite x) (Finite w) buffer")
    case None
    with a eq [OF Cons.prems] show ?thesis by simp
  next
    case (Some b')
    with keep Cons.prems have "n \<le> length b'"
      by simp
    from Cons.IH [OF this] a Some eq [OF Cons.prems] show ?thesis
      by simp
  qed
qed

lemma run_Some:
  assumes tot: "\<And>x w b. n \<le> length b \<Longrightarrow> \<exists>b'. g x w b = Some b' \<and> length b' = length b"
    and len: "n \<le> length buffer"
  shows "\<exists>b'. run g buffer stream = Some b' \<and> length b' = length buffer"
  using len
proof (induction stream arbitrary: buffer)
  case Nil
  then show ?case by simp
next
  case (Cons a stream)
  obtain x w where a: "a = (x, w)"
    by (cases a)
  from tot [OF Cons.prems, of "Finite x" "Finite w"]
  obtain b1 where b1: "g (Finite x) (Finite w) buffer = Some b1" and l: "length b1 = length buffer"
    by blast
  with Cons.prems have "n \<le> length b1"
    by simp
  from Cons.IH [OF this] a b1 l show ?case
    by simp
qed

lemma variance_Some:
  "3 \<le> length b \<Longrightarrow> \<exists>b'. incstats_variance x w b = Some b' \<and> length b' = length b"
  using central_moment_Some [of b 2 x w] by (simp add: central_moment_2_is_variance)

lemma skewness_Some:
  "4 \<le> length b \<Longrightarrow> \<exists>b'. incstats_skewness x w b = Some b' \<and> length b' = length b"
  using central_moment_Some [of b 3 x w] by (simp add: central_moment_3_is_skewness)

lemma kurtosis_Some:
  "5 \<le> length b \<Longrightarrow> \<exists>b'. incstats_kurtosis x w b = Some b' \<and> length b' = length b"
  using central_moment_Some [of b 4 x w] by (simp add: central_moment_4_is_kurtosis)

lemma variance_length: "incstats_variance x w b = Some b' \<Longrightarrow> length b' = length b"
  by (auto simp: incstats_variance_def wr_def rd_def Let_def split: bind_splits if_splits)

lemma skewness_length: "incstats_skewness x w b = Some b' \<Longrightarrow> length b' = length b"
  by (auto simp: incstats_skewness_def wr_def rd_def Let_def split: bind_splits if_splits)

lemma kurtosis_length: "incstats_kurtosis x w b = Some b' \<Longrightarrow> length b' = length b"
  by (auto simp: incstats_kurtosis_def wr_def rd_def Let_def split: bind_splits if_splits)

lemma zeros_length [simp]: "length (zeros n) = n"
  by (simp add: zeros_def)

lemma run_central_moment_2:
  "run (\<lambda>x w buffer. incstats_central_moment x w buffer 2) (zeros 3) stream
    = run incstats_variance (zeros 3) stream"
  by (rule run_cong [of 3]) (simp_all add: central_moment_2_is_variance variance_length)

lemma run_central_moment_3:
  "run (\<lambda>x w buffer. incstats_central_moment x w buffer 3) (zeros 4) stream
    = run incstats_skewness (zeros 4) stream"
  by (rule run_cong [of 4]) (simp_all add: central_moment_3_is_skewness skewness_length)

lemma run_central_moment_4:
  "run (\<lambda>x w buffer. incstats_central_moment x w buffer 4) (zeros 5) stream
    = run incstats_kurtosis (zeros 5) stream"
  by (rule run_cong [of 5]) (simp_all add: central_moment_4_is_kurtosis kurtosis_length)

subsection \<open>The finalize functions\<close>

lemma skewness_finalize_result:
  assumes "3 \<le> length results" and "4 \<le> length buffer"
  shows "incstats_skewness_finalize results buffer
    = Some (results[0 := buffer ! 1, 1 := buffer ! 2 / buffer ! 0,
        2 := (buffer ! 3 / buffer ! 0)
             / ((buffer ! 2 / buffer ! 0) * c_sqrt (buffer ! 2 / buffer ! 0))], buffer)"
proof -
  from assms have "0 < length results" "1 < length results" "2 < length results"
      "0 < length buffer" "1 < length buffer" "2 < length buffer" "3 < length buffer"
    by linarith+
  then show ?thesis
    by (simp add: incstats_skewness_finalize_def)
qed

lemma kurtosis_finalize_result:
  assumes "4 \<le> length results" and "5 \<le> length buffer"
  shows "incstats_kurtosis_finalize results buffer
    = Some (results[0 := buffer ! 1, 1 := buffer ! 2 / buffer ! 0,
        2 := (buffer ! 3 / buffer ! 0)
             / ((buffer ! 2 / buffer ! 0) * c_sqrt (buffer ! 2 / buffer ! 0)),
        3 := (buffer ! 4 / buffer ! 0) / incstats_pow (buffer ! 2 / buffer ! 0) 2], buffer)"
proof -
  from assms have "0 < length results" "1 < length results" "2 < length results"
      "3 < length results"
      "0 < length buffer" "1 < length buffer" "2 < length buffer" "3 < length buffer"
      "4 < length buffer"
    by linarith+
  then show ?thesis
    by (simp add: incstats_kurtosis_finalize_def)
qed

lemma pow_sqrt_3: "incstats_pow (c_sqrt v) 3 = v * c_sqrt v"
proof (cases v)
  case (Finite a)
  show ?thesis
  proof (cases "a < 0")
    case True
    with Finite show ?thesis by simp
  next
    case False
    then have "sqrt a * sqrt a = a"
      by simp
    then have "sqrt a ^ 3 = a * sqrt a"
      by (simp add: power3_eq_cube)
    with Finite False show ?thesis by simp
  qed
next
  case NonFinite
  then show ?thesis by simp
qed

lemma pow_sqrt_4:
  assumes "v = NonFinite \<or> (\<exists>a. v = Finite a \<and> 0 \<le> a)"
  shows "incstats_pow (c_sqrt v) 4 = incstats_pow v 2"
  using assms
proof
  assume "v = NonFinite"
  then show ?thesis by simp
next
  assume "\<exists>a. v = Finite a \<and> 0 \<le> a"
  then obtain a where a: "v = Finite a" "0 \<le> a"
    by blast
  then have "sqrt a * sqrt a = a"
    by simp
  then have "sqrt a ^ 4 = a\<^sup>2"
    by (simp add: power4_eq_xxxx power2_eq_square)
  with a show ?thesis by simp
qed

lemma generalized_finalize_nth:
  assumes "2 \<le> p" and "unat p + 1 \<le> length buffer" and "unat p + 2 \<le> length results"
    and "unat (p + 1) = Suc (unat p)"
  shows "\<exists>graw gstd.
      incstats_central_moment_finalize results buffer p False = Some (graw, buffer)
    \<and> incstats_central_moment_finalize results buffer p True = Some (gstd, buffer)
    \<and> graw ! (unat p + 1) = buffer ! 1 \<and> gstd ! (unat p + 1) = buffer ! 1
    \<and> (\<forall>j. 2 \<le> j \<and> j \<le> unat p \<longrightarrow>
          graw ! j = buffer ! j / buffer ! 0
        \<and> gstd ! j = buffer ! j / buffer ! 0
            / incstats_pow (c_sqrt (buffer ! 2 / buffer ! 0)) (of_nat j))"
proof -
  from central_moment_finalize_char [OF assms, of False]
  obtain graw where raw: "incstats_central_moment_finalize results buffer p False
        = Some (graw, buffer)"
      and nraw: "\<And>j. j < length results \<Longrightarrow> graw ! j =
         (if j = unat p + 1 then buffer ! 1
          else if unat p < j then results ! j
          else (if j = 0 then Finite 1 else if j = 1 then Finite 0
                else buffer ! j / buffer ! 0))"
    by auto
  from central_moment_finalize_char [OF assms, of True]
  obtain gstd where std: "incstats_central_moment_finalize results buffer p True
        = Some (gstd, buffer)"
      and nstd: "\<And>j. j < length results \<Longrightarrow> gstd ! j =
         (if j = unat p + 1 then buffer ! 1
          else if unat p < j then results ! j
          else (if j = 0 then Finite 1 else if j = 1 then Finite 0
                else buffer ! j / buffer ! 0)
               / incstats_pow (c_sqrt (buffer ! 2 / buffer ! 0)) (of_nat j))"
    by auto
  from assms(3) have m: "unat p + 1 < length results"
    by linarith
  have "graw ! j = buffer ! j / buffer ! 0
      \<and> gstd ! j = buffer ! j / buffer ! 0
          / incstats_pow (c_sqrt (buffer ! 2 / buffer ! 0)) (of_nat j)"
    if "2 \<le> j" and "j \<le> unat p" for j
  proof -
    from that assms(3) have "j < length results"
      by linarith
    from nraw [OF this] nstd [OF this] that show ?thesis
      by simp
  qed
  with raw std nraw [OF m] nstd [OF m] show ?thesis
    by simp
qed

lemma kurtosis_slots:
  assumes "5 \<le> length b"
  shows "\<exists>b'. incstats_kurtosis x w b = Some b' \<and> length b' = length b
    \<and> b' ! 0 = b ! 0 + w
    \<and> b' ! 2 = b ! 2 + b ! 0 * incstats_pow (- w * (x - b ! 1) / (b ! 0 + w)) 2
          + w * incstats_pow (b ! 0 * (x - b ! 1) / (b ! 0 + w)) 2"
proof -
  from assms have len: "0 < length b" "1 < length b" "2 < length b" "3 < length b"
      "4 < length b"
    by linarith+
  then show ?thesis
    by (simp add: incstats_kurtosis_def Let_def)
qed

lemma order2_nonneg:
  assumes "b0 = Finite W" and "0 \<le> W" and "0 \<le> w"
    and "b2 = NonFinite \<or> (\<exists>m. b2 = Finite m \<and> 0 \<le> m)"
  shows "b2 + b0 * incstats_pow (- Finite w * (Finite x - b1) / (b0 + Finite w)) 2
          + Finite w * incstats_pow (b0 * (Finite x - b1) / (b0 + Finite w)) 2 = NonFinite
    \<or> (\<exists>m. b2 + b0 * incstats_pow (- Finite w * (Finite x - b1) / (b0 + Finite w)) 2
          + Finite w * incstats_pow (b0 * (Finite x - b1) / (b0 + Finite w)) 2 = Finite m
        \<and> 0 \<le> m)"
proof (cases "\<exists>m c1. b2 = Finite m \<and> b1 = Finite c1 \<and> W + w \<noteq> 0")
  case True
  then obtain m c1 where e: "b2 = Finite m" "b1 = Finite c1" and nz: "W + w \<noteq> 0"
    by blast
  with assms(4) have "0 \<le> m"
    by simp
  with assms(2,3) have "0 \<le> m + W * (- w * (x - c1) / (W + w))\<^sup>2
      + w * (W * (x - c1) / (W + w))\<^sup>2"
    by simp
  with e nz assms(1) show ?thesis
    by simp
next
  case False
  with assms(1) show ?thesis
    by (cases b2; cases b1) auto
qed

lemma run_kurtosis_variance_sign:
  assumes "\<forall>(x, w) \<in> set stream. 0 \<le> w" and "5 \<le> length b"
    and "b ! 0 = Finite W" and "0 \<le> W"
    and "b ! 2 = NonFinite \<or> (\<exists>m. b ! 2 = Finite m \<and> 0 \<le> m)"
    and "run incstats_kurtosis b stream = Some b'"
  shows "(\<exists>W'. b' ! 0 = Finite W' \<and> 0 \<le> W')
    \<and> (b' ! 2 = NonFinite \<or> (\<exists>m. b' ! 2 = Finite m \<and> 0 \<le> m))"
  using assms
proof (induction stream arbitrary: b W)
  case Nil
  then show ?case by simp
next
  case (Cons a stream)
  obtain x w where a: "a = (x, w)"
    by (cases a)
  with Cons.prems(1) have w: "0 \<le> w" and rest: "\<forall>(x, w) \<in> set stream. 0 \<le> w"
    by simp_all
  from kurtosis_slots [OF Cons.prems(2), of "Finite x" "Finite w"]
  obtain b1 where b1: "incstats_kurtosis (Finite x) (Finite w) b = Some b1"
      and l1: "length b1 = length b" and w1: "b1 ! 0 = b ! 0 + Finite w"
      and m1: "b1 ! 2 = b ! 2
          + b ! 0 * incstats_pow (- Finite w * (Finite x - b ! 1) / (b ! 0 + Finite w)) 2
          + Finite w * incstats_pow (b ! 0 * (Finite x - b ! 1) / (b ! 0 + Finite w)) 2"
    by blast
  from w1 Cons.prems(3) have w1': "b1 ! 0 = Finite (W + w)"
    by simp
  from Cons.prems(4) w have w1'': "0 \<le> W + w"
    by simp
  from order2_nonneg [OF Cons.prems(3,4) w Cons.prems(5), of x "b ! 1"] m1
  have m1': "b1 ! 2 = NonFinite \<or> (\<exists>m. b1 ! 2 = Finite m \<and> 0 \<le> m)"
    by simp
  from Cons.prems(6) a b1 have r: "run incstats_kurtosis b1 stream = Some b'"
    by simp
  from l1 Cons.prems(2) have "5 \<le> length b1"
    by simp
  from Cons.IH [OF rest this w1' w1'' m1' r] show ?case .
qed

lemma variance_sign:
  assumes "b0 = Finite W" and "0 \<le> W" and "b2 = NonFinite \<or> (\<exists>m. b2 = Finite m \<and> 0 \<le> m)"
  shows "b2 / b0 = NonFinite \<or> (\<exists>a. b2 / b0 = Finite a \<and> 0 \<le> a)"
  using assms by (cases b2) auto

lemma finalize_agree_2:
  assumes "3 \<le> length b" and "4 \<le> length rg" and "2 \<le> length rs"
  shows "\<exists>graw gstd s.
      incstats_central_moment_finalize rg b 2 False = Some (graw, b)
    \<and> incstats_central_moment_finalize rg b 2 True = Some (gstd, b)
    \<and> incstats_variance_finalize rs b = Some (s, b)
    \<and> s ! 0 = graw ! 3 \<and> s ! 0 = gstd ! 3 \<and> s ! 1 = graw ! 2"
proof -
  from assms have h: "(2 :: u64) \<le> 2" "unat (2 :: u64) + 1 \<le> length b"
      "unat (2 :: u64) + 2 \<le> length rg" "unat ((2 :: u64) + 1) = Suc (unat (2 :: u64))"
    by simp_all
  from generalized_finalize_nth [OF h]
  obtain graw gstd where g: "incstats_central_moment_finalize rg b 2 False = Some (graw, b)"
      "incstats_central_moment_finalize rg b 2 True = Some (gstd, b)"
      "graw ! 3 = b ! 1" "gstd ! 3 = b ! 1" "graw ! 2 = b ! 2 / b ! 0"
    by force
  from assms(3) have "0 < length rs" "1 < length rs"
    by linarith+
  with g variance_finalize_result [OF assms(3,1)] show ?thesis
    by simp
qed

lemma finalize_agree_3:
  assumes "4 \<le> length b" and "5 \<le> length rg" and "3 \<le> length rs"
  shows "\<exists>graw gstd s.
      incstats_central_moment_finalize rg b 3 False = Some (graw, b)
    \<and> incstats_central_moment_finalize rg b 3 True = Some (gstd, b)
    \<and> incstats_skewness_finalize rs b = Some (s, b)
    \<and> s ! 0 = graw ! 4 \<and> s ! 0 = gstd ! 4 \<and> s ! 1 = graw ! 2 \<and> s ! 2 = gstd ! 3"
proof -
  from assms have h: "(2 :: u64) \<le> 3" "unat (3 :: u64) + 1 \<le> length b"
      "unat (3 :: u64) + 2 \<le> length rg" "unat ((3 :: u64) + 1) = Suc (unat (3 :: u64))"
    by (simp_all add: word_le_nat_alt)
  from generalized_finalize_nth [OF h]
  obtain graw gstd where g: "incstats_central_moment_finalize rg b 3 False = Some (graw, b)"
      "incstats_central_moment_finalize rg b 3 True = Some (gstd, b)"
      "graw ! 4 = b ! 1" "gstd ! 4 = b ! 1" "graw ! 2 = b ! 2 / b ! 0"
      "gstd ! 3 = b ! 3 / b ! 0 / incstats_pow (c_sqrt (b ! 2 / b ! 0)) 3"
    by force
  from assms(3) have "0 < length rs" "1 < length rs" "2 < length rs"
    by linarith+
  with g skewness_finalize_result [OF assms(3,1)] show ?thesis
    by (simp add: pow_sqrt_3)
qed

lemma finalize_agree_4:
  assumes "5 \<le> length b" and "6 \<le> length rg" and "4 \<le> length rs"
    and "b ! 2 / b ! 0 = NonFinite \<or> (\<exists>a. b ! 2 / b ! 0 = Finite a \<and> 0 \<le> a)"
  shows "\<exists>graw gstd s.
      incstats_central_moment_finalize rg b 4 False = Some (graw, b)
    \<and> incstats_central_moment_finalize rg b 4 True = Some (gstd, b)
    \<and> incstats_kurtosis_finalize rs b = Some (s, b)
    \<and> s ! 0 = graw ! 5 \<and> s ! 0 = gstd ! 5 \<and> s ! 1 = graw ! 2 \<and> s ! 2 = gstd ! 3
    \<and> s ! 3 = gstd ! 4"
proof -
  from assms have h: "(2 :: u64) \<le> 4" "unat (4 :: u64) + 1 \<le> length b"
      "unat (4 :: u64) + 2 \<le> length rg" "unat ((4 :: u64) + 1) = Suc (unat (4 :: u64))"
    by (simp_all add: word_le_nat_alt)
  from generalized_finalize_nth [OF h]
  obtain graw gstd where g: "incstats_central_moment_finalize rg b 4 False = Some (graw, b)"
      "incstats_central_moment_finalize rg b 4 True = Some (gstd, b)"
      "graw ! 5 = b ! 1" "gstd ! 5 = b ! 1" "graw ! 2 = b ! 2 / b ! 0"
      "gstd ! 3 = b ! 3 / b ! 0 / incstats_pow (c_sqrt (b ! 2 / b ! 0)) 3"
      "gstd ! 4 = b ! 4 / b ! 0 / incstats_pow (c_sqrt (b ! 2 / b ! 0)) 4"
    by force
  from assms(3) have "0 < length rs" "1 < length rs" "2 < length rs" "3 < length rs"
    by linarith+
  with g kurtosis_finalize_result [OF assms(3,1)] show ?thesis
    by (simp add: pow_sqrt_3 pow_sqrt_4 [OF assms(4)])
qed

text \<open>
  C1. For every stream of real samples and every number \<open>n\<close> of samples fed, the
  generalized update of order \<open>p = 2, 3, 4\<close> on a zero-initialized buffer of length
  \<open>p + 1\<close> returns what \<^verbatim>\<open>incstats_variance\<close>, \<^verbatim>\<open>incstats_skewness\<close> and \<^verbatim>\<open>incstats_kurtosis\<close>
  return on the same samples: the same buffer. On that buffer the outputs of the specialized
  finalize are outputs of the generalized one: the mean is \<^verbatim>\<open>results[p + 1]\<close>, the variance
  is the raw \<^verbatim>\<open>results[2]\<close>, the skewness is the standardized \<^verbatim>\<open>results[3]\<close> and the kurtosis
  is the standardized \<^verbatim>\<open>results[4]\<close>. The kurtosis is compared for streams of non-negative
  weights, as the data model has them.
\<close>

theorem generalized_agrees_with_specialized:
  "run (\<lambda>x w buffer. incstats_central_moment x w buffer 2) (zeros 3) (take n stream)
     = run incstats_variance (zeros 3) (take n stream)
   \<and> run (\<lambda>x w buffer. incstats_central_moment x w buffer 3) (zeros 4) (take n stream)
     = run incstats_skewness (zeros 4) (take n stream)
   \<and> run (\<lambda>x w buffer. incstats_central_moment x w buffer 4) (zeros 5) (take n stream)
     = run incstats_kurtosis (zeros 5) (take n stream)
   \<and> (4 \<le> length rg \<and> 2 \<le> length rs \<longrightarrow>
        (\<exists>b graw gstd s. run incstats_variance (zeros 3) (take n stream) = Some b
          \<and> incstats_central_moment_finalize rg b 2 False = Some (graw, b)
          \<and> incstats_central_moment_finalize rg b 2 True = Some (gstd, b)
          \<and> incstats_variance_finalize rs b = Some (s, b)
          \<and> s ! 0 = graw ! 3 \<and> s ! 0 = gstd ! 3 \<and> s ! 1 = graw ! 2))
   \<and> (5 \<le> length rg \<and> 3 \<le> length rs \<longrightarrow>
        (\<exists>b graw gstd s. run incstats_skewness (zeros 4) (take n stream) = Some b
          \<and> incstats_central_moment_finalize rg b 3 False = Some (graw, b)
          \<and> incstats_central_moment_finalize rg b 3 True = Some (gstd, b)
          \<and> incstats_skewness_finalize rs b = Some (s, b)
          \<and> s ! 0 = graw ! 4 \<and> s ! 0 = gstd ! 4 \<and> s ! 1 = graw ! 2 \<and> s ! 2 = gstd ! 3))
   \<and> (6 \<le> length rg \<and> 4 \<le> length rs \<and> (\<forall>(x, w) \<in> set stream. 0 \<le> w) \<longrightarrow>
        (\<exists>b graw gstd s. run incstats_kurtosis (zeros 5) (take n stream) = Some b
          \<and> incstats_central_moment_finalize rg b 4 False = Some (graw, b)
          \<and> incstats_central_moment_finalize rg b 4 True = Some (gstd, b)
          \<and> incstats_kurtosis_finalize rs b = Some (s, b)
          \<and> s ! 0 = graw ! 5 \<and> s ! 0 = gstd ! 5 \<and> s ! 1 = graw ! 2 \<and> s ! 2 = gstd ! 3
          \<and> s ! 3 = gstd ! 4))"
proof (intro conjI impI)
  show "run (\<lambda>x w buffer. incstats_central_moment x w buffer 2) (zeros 3) (take n stream)
      = run incstats_variance (zeros 3) (take n stream)"
    by (rule run_central_moment_2)
  show "run (\<lambda>x w buffer. incstats_central_moment x w buffer 3) (zeros 4) (take n stream)
      = run incstats_skewness (zeros 4) (take n stream)"
    by (rule run_central_moment_3)
  show "run (\<lambda>x w buffer. incstats_central_moment x w buffer 4) (zeros 5) (take n stream)
      = run incstats_kurtosis (zeros 5) (take n stream)"
    by (rule run_central_moment_4)
next
  assume a: "4 \<le> length rg \<and> 2 \<le> length rs"
  obtain b where b: "run incstats_variance (zeros 3) (take n stream) = Some b"
      and l: "length b = 3"
    using run_Some [of 3 incstats_variance "zeros 3" "take n stream"] variance_Some by auto
  from l a finalize_agree_2 [of b rg rs] b
  show "\<exists>b graw gstd s. run incstats_variance (zeros 3) (take n stream) = Some b
      \<and> incstats_central_moment_finalize rg b 2 False = Some (graw, b)
      \<and> incstats_central_moment_finalize rg b 2 True = Some (gstd, b)
      \<and> incstats_variance_finalize rs b = Some (s, b)
      \<and> s ! 0 = graw ! 3 \<and> s ! 0 = gstd ! 3 \<and> s ! 1 = graw ! 2"
    by simp
next
  assume a: "5 \<le> length rg \<and> 3 \<le> length rs"
  obtain b where b: "run incstats_skewness (zeros 4) (take n stream) = Some b"
      and l: "length b = 4"
    using run_Some [of 4 incstats_skewness "zeros 4" "take n stream"] skewness_Some by auto
  from l a finalize_agree_3 [of b rg rs] b
  show "\<exists>b graw gstd s. run incstats_skewness (zeros 4) (take n stream) = Some b
      \<and> incstats_central_moment_finalize rg b 3 False = Some (graw, b)
      \<and> incstats_central_moment_finalize rg b 3 True = Some (gstd, b)
      \<and> incstats_skewness_finalize rs b = Some (s, b)
      \<and> s ! 0 = graw ! 4 \<and> s ! 0 = gstd ! 4 \<and> s ! 1 = graw ! 2 \<and> s ! 2 = gstd ! 3"
    by simp
next
  assume a: "6 \<le> length rg \<and> 4 \<le> length rs \<and> (\<forall>(x, w) \<in> set stream. 0 \<le> w)"
  obtain b where b: "run incstats_kurtosis (zeros 5) (take n stream) = Some b"
      and l: "length b = 5"
    using run_Some [of 5 incstats_kurtosis "zeros 5" "take n stream"] kurtosis_Some by auto
  from a have nn: "\<forall>(x, w) \<in> set (take n stream). 0 \<le> w"
    by (auto dest: in_set_takeD)
  have z: "5 \<le> length (zeros 5)" "zeros 5 ! 0 = Finite 0" "(0 :: real) \<le> 0"
      "zeros 5 ! 2 = NonFinite \<or> (\<exists>m. zeros 5 ! 2 = Finite m \<and> 0 \<le> m)"
    by (simp_all add: zeros_def)
  from run_kurtosis_variance_sign [OF nn z b]
  obtain W where "b ! 0 = Finite W" "0 \<le> W"
      "b ! 2 = NonFinite \<or> (\<exists>m. b ! 2 = Finite m \<and> 0 \<le> m)"
    by blast
  then have "b ! 2 / b ! 0 = NonFinite \<or> (\<exists>a. b ! 2 / b ! 0 = Finite a \<and> 0 \<le> a)"
    by (rule variance_sign)
  from finalize_agree_4 [OF _ _ _ this, of rg rs] l a b
  show "\<exists>b graw gstd s. run incstats_kurtosis (zeros 5) (take n stream) = Some b
      \<and> incstats_central_moment_finalize rg b 4 False = Some (graw, b)
      \<and> incstats_central_moment_finalize rg b 4 True = Some (gstd, b)
      \<and> incstats_kurtosis_finalize rs b = Some (s, b)
      \<and> s ! 0 = graw ! 5 \<and> s ! 0 = gstd ! 5 \<and> s ! 1 = graw ! 2 \<and> s ! 2 = gstd ! 3
      \<and> s ! 3 = gstd ! 4"
    by simp
qed

theorem generalized_agrees_with_specialized_witness:
  "6 \<le> length (replicate 6 (Finite 0)) \<and> 4 \<le> length (replicate 4 (Finite 0))
   \<and> (0 :: real) \<le> 1 \<and> (0 :: real) \<le> 3 \<and> (0 :: real) \<le> 2
   \<and> run (\<lambda>x w buffer. incstats_central_moment x w buffer 2) (zeros 3)
         (take 2 [(1, 1), (4, 3), (2, 2)])
     = run incstats_variance (zeros 3) (take 2 [(1, 1), (4, 3), (2, 2)])
   \<and> run (\<lambda>x w buffer. incstats_central_moment x w buffer 3) (zeros 4)
         (take 2 [(1, 1), (4, 3), (2, 2)])
     = run incstats_skewness (zeros 4) (take 2 [(1, 1), (4, 3), (2, 2)])
   \<and> run (\<lambda>x w buffer. incstats_central_moment x w buffer 4) (zeros 5)
         (take 2 [(1, 1), (4, 3), (2, 2)])
     = run incstats_kurtosis (zeros 5) (take 2 [(1, 1), (4, 3), (2, 2)])
   \<and> (\<exists>b graw gstd s.
          run incstats_variance (zeros 3) (take 2 [(1, 1), (4, 3), (2, 2)]) = Some b
        \<and> incstats_central_moment_finalize (replicate 6 (Finite 0)) b 2 False = Some (graw, b)
        \<and> incstats_central_moment_finalize (replicate 6 (Finite 0)) b 2 True = Some (gstd, b)
        \<and> incstats_variance_finalize (replicate 4 (Finite 0)) b = Some (s, b)
        \<and> s ! 0 = graw ! 3 \<and> s ! 0 = gstd ! 3 \<and> s ! 1 = graw ! 2)
   \<and> (\<exists>b graw gstd s.
          run incstats_skewness (zeros 4) (take 2 [(1, 1), (4, 3), (2, 2)]) = Some b
        \<and> incstats_central_moment_finalize (replicate 6 (Finite 0)) b 3 False = Some (graw, b)
        \<and> incstats_central_moment_finalize (replicate 6 (Finite 0)) b 3 True = Some (gstd, b)
        \<and> incstats_skewness_finalize (replicate 4 (Finite 0)) b = Some (s, b)
        \<and> s ! 0 = graw ! 4 \<and> s ! 0 = gstd ! 4 \<and> s ! 1 = graw ! 2 \<and> s ! 2 = gstd ! 3)
   \<and> (\<exists>b graw gstd s.
          run incstats_kurtosis (zeros 5) (take 2 [(1, 1), (4, 3), (2, 2)]) = Some b
        \<and> incstats_central_moment_finalize (replicate 6 (Finite 0)) b 4 False = Some (graw, b)
        \<and> incstats_central_moment_finalize (replicate 6 (Finite 0)) b 4 True = Some (gstd, b)
        \<and> incstats_kurtosis_finalize (replicate 4 (Finite 0)) b = Some (s, b)
        \<and> s ! 0 = graw ! 5 \<and> s ! 0 = gstd ! 5 \<and> s ! 1 = graw ! 2 \<and> s ! 2 = gstd ! 3
        \<and> s ! 3 = gstd ! 4)"
proof -
  have h: "6 \<le> length (replicate 6 (Finite 0))" "4 \<le> length (replicate 4 (Finite 0))"
      "4 \<le> length (replicate 6 (Finite 0))" "2 \<le> length (replicate 4 (Finite 0))"
      "5 \<le> length (replicate 6 (Finite 0))" "3 \<le> length (replicate 4 (Finite 0))"
      "\<forall>(x, w) \<in> set [(1, 1), (4, 3), (2, 2 :: real)]. 0 \<le> w"
    by simp_all
  note T = generalized_agrees_with_specialized
    [of 2 "[(1, 1), (4, 3), (2, 2)]" "replicate 6 (Finite 0)" "replicate 4 (Finite 0)"]
  note T1 = T [THEN conjunct1]
    and T2 = T [THEN conjunct2, THEN conjunct1]
    and T3 = T [THEN conjunct2, THEN conjunct2, THEN conjunct1]
    and T4 = T [THEN conjunct2, THEN conjunct2, THEN conjunct2, THEN conjunct1]
    and T5 = T [THEN conjunct2, THEN conjunct2, THEN conjunct2, THEN conjunct2, THEN conjunct1]
    and T6 = T [THEN conjunct2, THEN conjunct2, THEN conjunct2, THEN conjunct2, THEN conjunct2]
  show ?thesis
    apply (intro conjI)
              apply (rule h(1))
             apply (rule h(2))
            apply simp
           apply simp
          apply simp
         apply (rule T1)
        apply (rule T2)
       apply (rule T3)
      apply (rule mp [OF T4 conjI [OF h(3) h(4)]])
     apply (rule mp [OF T5 conjI [OF h(5) h(6)]])
    apply (rule mp [OF T6 conjI [OF h(1) conjI [OF h(2) h(7)]]])
    done
qed

lemma kurtosis_run_example:
  "run incstats_kurtosis (zeros 5) [(1, 1), (4, 3)]
     = Some [Finite 4, Finite (13 / 4), Finite (27 / 4), Finite (- 81 / 8), Finite (1701 / 64)]
   \<and> run (\<lambda>x w buffer. incstats_central_moment x w buffer 4) (zeros 5) [(1, 1), (4, 3)]
     = Some [Finite 4, Finite (13 / 4), Finite (27 / 4), Finite (- 81 / 8), Finite (1701 / 64)]"
proof -
  have z: "zeros 5 = [Finite 0, Finite 0, Finite 0, Finite 0, Finite 0]"
    by (simp add: zeros_def numeral_eq_Suc)
  show ?thesis
    unfolding run_central_moment_4 unfolding z
    by (simp add: incstats_kurtosis_def Let_def power_divide)
qed

section \<open>The accumulator under finalize\<close>

text \<open>
  No finalize function changes the buffer. The four specialized ones, and the generalized
  one for an order of at least 2 on arrays of the contracted sizes, write results that a
  second call on the same buffer writes again.
\<close>

lemma finalize_keeps_buffer:
  "incstats_mean_finalize mean buffer = Some (m', b') \<Longrightarrow> b' = buffer"
  "incstats_variance_finalize results buffer = Some (r', b') \<Longrightarrow> b' = buffer"
  "incstats_skewness_finalize results buffer = Some (r', b') \<Longrightarrow> b' = buffer"
  "incstats_kurtosis_finalize results buffer = Some (r', b') \<Longrightarrow> b' = buffer"
  "incstats_central_moment_finalize results buffer p standardize = Some (r', b') \<Longrightarrow> b' = buffer"
  by (auto simp: incstats_mean_finalize_def incstats_variance_finalize_def
      incstats_skewness_finalize_def incstats_kurtosis_finalize_def
      incstats_central_moment_finalize_def Let_def split: bind_splits)

lemma specialized_finalize_twice:
  "incstats_mean_finalize mean buffer = Some (m', b') \<Longrightarrow>
     incstats_mean_finalize m' b' = Some (m', b')"
  "incstats_variance_finalize results buffer = Some (r', b') \<Longrightarrow>
     incstats_variance_finalize r' b' = Some (r', b')"
  "incstats_skewness_finalize results buffer = Some (r', b') \<Longrightarrow>
     incstats_skewness_finalize r' b' = Some (r', b')"
  "incstats_kurtosis_finalize results buffer = Some (r', b') \<Longrightarrow>
     incstats_kurtosis_finalize r' b' = Some (r', b')"
  by (auto simp: incstats_mean_finalize_def incstats_variance_finalize_def
      incstats_skewness_finalize_def incstats_kurtosis_finalize_def
      Let_def rd_def wr_def list_update_swap split: bind_splits if_splits)

lemma generalized_finalize_twice:
  assumes "2 \<le> p" and "unat p + 1 \<le> length buffer" and "unat p + 2 \<le> length results"
    and "unat (p + 1) = Suc (unat p)"
    and "incstats_central_moment_finalize results buffer p standardize = Some (r', b')"
  shows "incstats_central_moment_finalize r' b' p standardize = Some (r', b')"
proof -
  from central_moment_finalize_char [OF assms(1-4), of standardize] assms(5)
  have b': "b' = buffer" and l: "length r' = length results"
    and n: "\<And>j. j < length results \<Longrightarrow> r' ! j =
         (if j = unat p + 1 then buffer ! 1
          else if unat p < j then results ! j
          else if standardize
            then (if j = 0 then Finite 1 else if j = 1 then Finite 0
                  else buffer ! j / buffer ! 0)
                 / incstats_pow (c_sqrt (buffer ! 2 / buffer ! 0)) (of_nat j)
            else (if j = 0 then Finite 1 else if j = 1 then Finite 0
                  else buffer ! j / buffer ! 0))"
    by auto
  from assms(3) l have "unat p + 2 \<le> length r'"
    by simp
  from central_moment_finalize_char [OF assms(1,2) this assms(4), of standardize]
  obtain r'' where f: "incstats_central_moment_finalize r' buffer p standardize = Some (r'', buffer)"
    and l': "length r'' = length r'"
    and n': "\<And>j. j < length r' \<Longrightarrow> r'' ! j =
         (if j = unat p + 1 then buffer ! 1
          else if unat p < j then r' ! j
          else if standardize
            then (if j = 0 then Finite 1 else if j = 1 then Finite 0
                  else buffer ! j / buffer ! 0)
                 / incstats_pow (c_sqrt (buffer ! 2 / buffer ! 0)) (of_nat j)
            else (if j = 0 then Finite 1 else if j = 1 then Finite 0
                  else buffer ! j / buffer ! 0))"
    by auto
  have "r'' = r'"
  proof (rule nth_equalityI)
    show "length r'' = length r'"
      by (rule l')
  next
    fix j
    assume "j < length r''"
    with l' l have j: "j < length results" "j < length r'"
      by simp_all
    from n [OF j(1)] n' [OF j(2)] show "r'' ! j = r' ! j"
      by simp
  qed
  with f b' show ?thesis
    by simp
qed

end
